theory Spec2Isabelle
  imports Main "HOL-Library.Word"
begin

unbundle bit_operations_syntax

section \<open>Data model of the split kernel\<close>

text \<open>
  The stage \<^verbatim>\<open>kernel_direct_lighting\<close> (src/kernel/split/kernel_direct_lighting.h) works on
  the global arrays of \<^verbatim>\<open>kernel_split_state\<close>, all indexed by a ray (slot) index, and on the
  queues. Types whose declarations live in headers outside the source (RNG, PathState,
  ShaderData, LightSample, Ray, BsdfEval, KernelGlobals) are type parameters; a float is
  only ever passed on, so it is kept as its 32-bit pattern.
\<close>

type_synonym float = "32 word"
type_synonym float3 = "float \<times> float \<times> float"

text \<open>The queues the source names (the enum itself is declared elsewhere).\<close>

datatype queue_id =
    QUEUE_ACTIVE_AND_REGENERATED_RAYS
  | QUEUE_HITBG_BUFF_UPDATE_TOREGEN_RAYS
  | QUEUE_SHADOW_RAY_CAST_DL_RAYS

text \<open>The random-number dimensions the stage draws from.\<close>

datatype prng_dimension = PRNG_LIGHT | PRNG_LIGHT_U

text \<open>
  \<^verbatim>\<open>kernel_split_state\<close>: one entry per ray slot for the per-ray arrays; \<^verbatim>\<open>sd\<close> and
  \<^verbatim>\<open>sd_DL_shadow\<close> are used as the source uses them, without a ray index. An array is a
  total function of the C \<^verbatim>\<open>int\<close> index; the element type of \<^verbatim>\<open>ray_state\<close> is a
  machine word whose width is left open. Following the spec's queue registry, the queue
  buffer is addressed by queue and offset.
\<close>

record ('st, 'rng, 'ps, 'sd, 'ray, 'ev) split_state =
  ray_state :: "int \<Rightarrow> 'st"
  rng :: "int \<Rightarrow> 'rng"
  path_state :: "int \<Rightarrow> 'ps"
  sd :: "'sd"
  sd_DL_shadow :: "'sd"
  light_ray :: "int \<Rightarrow> 'ray"
  bsdf_eval :: "int \<Rightarrow> 'ev"
  is_lamp :: "int \<Rightarrow> bool"
  queue_data :: "queue_id \<Rightarrow> nat \<Rightarrow> int"

text \<open>
  Constants, macros and field accessors that the stage uses and that are declared outside
  the source. They are parameters of the model: \<^verbatim>\<open>state_test w st\<close> is the comparison
  \<^verbatim>\<open>IS_STATE\<close> makes on the state word of a slot, \<^verbatim>\<open>use_direct_light\<close> stands for
  \<^verbatim>\<open>kernel_data.integrator.use_direct_light\<close>, \<^verbatim>\<open>fetch_flag\<close>, \<^verbatim>\<open>fetch_time\<close> and
  \<^verbatim>\<open>fetch_P\<close> for \<^verbatim>\<open>ccl_fetch(sd, flag)\<close>, \<^verbatim>\<open>ccl_fetch(sd, time)\<close> and
  \<^verbatim>\<open>ccl_fetch(sd, P)\<close>, and \<^verbatim>\<open>bounce\<close> for \<^verbatim>\<open>state->bounce\<close>.
\<close>

record ('st, 'kg, 'ps, 'sd) kernel_types =
  QUEUE_EMPTY_SLOT :: int
  RAY_ACTIVE :: "'st"
  RAY_SHADOW_RAY_CAST_DL :: "'st"
  SD_BSDF_HAS_EVAL :: "32 word"
  state_test :: "'st \<Rightarrow> 'st \<Rightarrow> bool"
  use_direct_light :: "'kg \<Rightarrow> bool"
  fetch_flag :: "'sd \<Rightarrow> 32 word"
  fetch_time :: "'sd \<Rightarrow> float"
  fetch_P :: "'sd \<Rightarrow> float3"
  bounce :: "'ps \<Rightarrow> int"

text \<open>
  The external collaborators of the stage (the sampling and shading engine), with the
  arguments the source passes. \<^verbatim>\<open>direct_emission\<close> receives the locally declared
  \<^verbatim>\<open>light_ray\<close> through a pointer; its only initialised field is \<^verbatim>\<open>time\<close>, and only
  under \<^verbatim>\<open>__OBJECT_MOTION__\<close>, hence the \<open>float option\<close>. A result \<open>None\<close> is the C
  \<^verbatim>\<open>false\<close>; \<open>Some\<close> carries the values written through the output pointers. As in the
  interface the spec gives for them, they compute their results from their arguments and
  have no other effect.
\<close>

record ('kg, 'rng, 'ps, 'sd, 'ls, 'ray, 'ev) externals =
  path_state_rng_1D :: "'kg \<Rightarrow> 'rng \<Rightarrow> 'ps \<Rightarrow> prng_dimension \<Rightarrow> float"
  path_state_rng_2D :: "'kg \<Rightarrow> 'rng \<Rightarrow> 'ps \<Rightarrow> prng_dimension \<Rightarrow> float \<times> float"
  path_state_rng_light_termination :: "'kg \<Rightarrow> 'rng \<Rightarrow> 'ps \<Rightarrow> float"
  light_sample :: "'kg \<Rightarrow> float \<Rightarrow> float \<Rightarrow> float \<Rightarrow> float \<Rightarrow> float3 \<Rightarrow> int \<Rightarrow> 'ls option"
  direct_emission ::
    "'kg \<Rightarrow> 'sd \<Rightarrow> 'sd \<Rightarrow> 'ls \<Rightarrow> 'ps \<Rightarrow> float option \<Rightarrow> float \<Rightarrow> ('ray \<times> 'ev \<times> bool) option"

text \<open>The preprocessor symbols that select the compiled variant.\<close>

record build_config =
  COMPUTE_DEVICE_GPU :: bool
  EMISSION :: bool
  OBJECT_MOTION :: bool

section \<open>Macros and queue access\<close>

text \<open>
  Modelled from the spec: the macro \<^verbatim>\<open>IS_STATE(ray_state, ray_index, state)\<close> is not in the
  source. The spec's \<^verbatim>\<open>is_state(index, flag)\<close> tests the state of the slot \<open>index\<close>; the
  comparison itself is the parameter \<^const>\<open>state_test\<close>.
\<close>

definition IS_STATE ::
  "('st, 'kg, 'ps, 'sd) kernel_types \<Rightarrow> (int \<Rightarrow> 'st) \<Rightarrow> int \<Rightarrow> 'st \<Rightarrow> bool" where
  "IS_STATE kt rs ray_index st = state_test kt (rs ray_index) st"

text \<open>
  Modelled from the spec: the macro \<^verbatim>\<open>ADD_RAY_FLAG(ray_state, ray_index, flag)\<close> is not in
  the source. The spec's \<^verbatim>\<open>add_state_flag(index, flag)\<close> is the logical OR of the flag into
  the state of the slot \<open>index\<close>.
\<close>

definition ADD_RAY_FLAG :: "(int \<Rightarrow> 'w::len word) \<Rightarrow> int \<Rightarrow> 'w word \<Rightarrow> int \<Rightarrow> 'w word" where
  "ADD_RAY_FLAG rs ray_index flag = rs(ray_index := rs ray_index OR flag)"

text \<open>
  Modelled from the spec: the function \<^verbatim>\<open>get_ray_index\<close> is not in the source. By the spec
  it is a read of the designated queue at the offset the thread asks for; an exhausted
  queue holds the EMPTY sentinel there. The arguments are those of the call in the source;
  the last one is the literal 0 the stage passes.
\<close>

definition get_ray_index ::
  "'kg \<Rightarrow> nat \<Rightarrow> queue_id \<Rightarrow> (queue_id \<Rightarrow> nat \<Rightarrow> int) \<Rightarrow> nat \<Rightarrow> nat \<Rightarrow> int" where
  "get_ray_index kg thread_index queue_number queues queuesize empty_queue =
     queues queue_number thread_index"

section \<open>The stage, one thread\<close>

text \<open>
  Lines 93 to 114: the random numbers, \<^verbatim>\<open>light_sample\<close> and \<^verbatim>\<open>direct_emission\<close>. The
  result is \<open>Some (light_ray, L_light, is_lamp)\<close> when both calls succeed.
\<close>

definition sample_direct_light ::
  "build_config \<Rightarrow> ('st, 'kg, 'ps, 'sd) kernel_types \<Rightarrow>
   ('kg, 'rng, 'ps, 'sd, 'ls, 'ray, 'ev) externals \<Rightarrow> 'kg \<Rightarrow>
   'rng \<Rightarrow> 'ps \<Rightarrow> 'sd \<Rightarrow> 'sd \<Rightarrow> ('ray \<times> 'ev \<times> bool) option" where
  "sample_direct_light b kt ext kg r state sdv sd_shadow =
     (let light_t = path_state_rng_1D ext kg r state PRNG_LIGHT;
          (light_u, light_v) = path_state_rng_2D ext kg r state PRNG_LIGHT_U;
          terminate = path_state_rng_light_termination ext kg r state
      in case light_sample ext kg light_t light_u light_v
                (fetch_time kt sdv) (fetch_P kt sdv) (bounce kt state) of
           None \<Rightarrow> None
         | Some ls \<Rightarrow>
             direct_emission ext kg sdv sd_shadow ls state
               (if OBJECT_MOTION b then Some (fetch_time kt sdv) else None) terminate)"

text \<open>
  Lines 83 to 128: the block guarded by \<^verbatim>\<open>IS_STATE(..., RAY_ACTIVE)\<close>. The result is the
  new split state and the value of \<^verbatim>\<open>enqueue_flag\<close>.
\<close>

definition direct_lighting_body ::
  "build_config \<Rightarrow> ('w::len word, 'kg, 'ps, 'sd) kernel_types \<Rightarrow>
   ('kg, 'rng, 'ps, 'sd, 'ls, 'ray, 'ev) externals \<Rightarrow> 'kg \<Rightarrow>
   ('w word, 'rng, 'ps, 'sd, 'ray, 'ev) split_state \<Rightarrow> int \<Rightarrow>
   ('w word, 'rng, 'ps, 'sd, 'ray, 'ev) split_state \<times> bool" where
  "direct_lighting_body b kt ext kg s ray_index =
     (if IS_STATE kt (ray_state s) ray_index (RAY_ACTIVE kt) then
        if EMISSION b then
          if use_direct_light kt kg \<and> fetch_flag kt (sd s) AND SD_BSDF_HAS_EVAL kt \<noteq> 0 then
            case sample_direct_light b kt ext kg (rng s ray_index) (path_state s ray_index)
                   (sd s) (sd_DL_shadow s) of
              None \<Rightarrow> (s, False)
            | Some (lr, L_light, lamp) \<Rightarrow>
                (s\<lparr>light_ray := (light_ray s)(ray_index := lr),
                   bsdf_eval := (bsdf_eval s)(ray_index := L_light),
                   is_lamp := (is_lamp s)(ray_index := lamp),
                   ray_state :=
                     ADD_RAY_FLAG (ray_state s) ray_index (RAY_SHADOW_RAY_CAST_DL kt)\<rparr>,
                 True)
          else (s, False)
        else (s, False)
      else (s, False))"

text \<open>
  The whole thread up to the call of \<^verbatim>\<open>enqueue_ray_index_local\<close> (lines 58 to 143). The
  second component is \<open>None\<close> when the thread does not reach the call (the GPU early return,
  or a build without \<^verbatim>\<open>__EMISSION__\<close>), and otherwise the ray index, the queue and the
  enqueue flag the call receives.
\<close>

definition kernel_direct_lighting ::
  "build_config \<Rightarrow> ('w::len word, 'kg, 'ps, 'sd) kernel_types \<Rightarrow>
   ('kg, 'rng, 'ps, 'sd, 'ls, 'ray, 'ev) externals \<Rightarrow> 'kg \<Rightarrow> nat \<Rightarrow>
   ('w word, 'rng, 'ps, 'sd, 'ray, 'ev) split_state \<Rightarrow> nat \<Rightarrow>
   ('w word, 'rng, 'ps, 'sd, 'ray, 'ev) split_state \<times> (int \<times> queue_id \<times> bool) option" where
  "kernel_direct_lighting b kt ext kg queue_size s thread_index =
     (let ray_index = get_ray_index kg thread_index QUEUE_ACTIVE_AND_REGENERATED_RAYS
                        (queue_data s) queue_size 0
      in if COMPUTE_DEVICE_GPU b \<and> ray_index = QUEUE_EMPTY_SLOT kt then (s, None)
         else
           let (s', enqueue_flag) =
                 (if COMPUTE_DEVICE_GPU b \<or> ray_index \<noteq> QUEUE_EMPTY_SLOT kt
                  then direct_lighting_body b kt ext kg s ray_index
                  else (s, False))
           in (s', if EMISSION b
                   then Some (ray_index, QUEUE_SHADOW_RAY_CAST_DL_RAYS, enqueue_flag)
                   else None))"


text \<open>
  The outcome of the guarded block for slot \<open>i\<close> as one value: the three results when the
  slot passes every guard and both collaborators succeed, \<open>None\<close> otherwise.
\<close>

definition slot_sample ::
  "build_config \<Rightarrow> ('st, 'kg, 'ps, 'sd) kernel_types \<Rightarrow>
   ('kg, 'rng, 'ps, 'sd, 'ls, 'ray, 'ev) externals \<Rightarrow> 'kg \<Rightarrow>
   ('st, 'rng, 'ps, 'sd, 'ray, 'ev) split_state \<Rightarrow> int \<Rightarrow> ('ray \<times> 'ev \<times> bool) option" where
  "slot_sample b kt ext kg s i =
     (if IS_STATE kt (ray_state s) i (RAY_ACTIVE kt) \<and> EMISSION b \<and> use_direct_light kt kg \<and>
         fetch_flag kt (sd s) AND SD_BSDF_HAS_EVAL kt \<noteq> 0
      then sample_direct_light b kt ext kg (rng s i) (path_state s i) (sd s) (sd_DL_shadow s)
      else None)"

section \<open>A round of the stage\<close>

text \<open>
  The stage runs once per thread of a dispatch; the threads meet only at the barriers and at
  the atomic operations. A round is modelled as a transition system whose steps are the
  actions of single threads (the reservation for a group is the step of its representative,
  the copy of a staged entry the step of a thread of the group), and a schedule is the order
  in which the device happens to run them. Every thread is identified by its global linear
  index, the value \<^verbatim>\<open>ccl_global_id(1) * ccl_global_size(0) + ccl_global_id(0)\<close> of line 59.

  Where a thread stands: before line 53 (\<open>Entry\<close>), waiting at the barrier of line 56
  (\<open>AtBarrier\<close>), inside \<^verbatim>\<open>enqueue_ray_index_local\<close> with its ray index and enqueue flag
  and before the local stage (\<open>Pending\<close>), past the local stage and at the barrier that
  follows it (\<open>Arrived\<close>), or returned without entering the primitive (\<open>Exited\<close>).
\<close>

datatype phase = Entry | AtBarrier | Pending int bool | Arrived | Exited

text \<open>
  What is fixed for a dispatch: the compiled variant, the constants, the sampling engine, the
  kernel globals, \<^verbatim>\<open>kernel_split_params.queue_size\<close>, the number of threads, and for every
  thread its work-group and its linear index inside the group (0 for the thread with
  \<^verbatim>\<open>ccl_local_id(0) == 0 && ccl_local_id(1) == 0\<close>). Any number of groups of any sizes is
  a choice of \<open>group_id\<close>.
\<close>

record ('st, 'kg, 'rng, 'ps, 'sd, 'ls, 'ray, 'ev) dispatch =
  build :: build_config
  types :: "('st, 'kg, 'ps, 'sd) kernel_types"
  engine :: "('kg, 'rng, 'ps, 'sd, 'ls, 'ray, 'ev) externals"
  globals :: 'kg
  queue_size :: nat
  global_size :: nat
  group_id :: "nat \<Rightarrow> nat"
  local_id :: "nat \<Rightarrow> nat"

text \<open>
  The memory of a round: the split state, the queue counters behind
  \<^verbatim>\<open>kernel_split_params.queue_index\<close>, the place of every thread, and per work-group the
  local counter \<^verbatim>\<open>local_queue_atomics\<close> of line 52 (not initialised on entry), the staging
  buffer, and the region of the queue the group has reserved and filled so far. The counter
  is an \<^verbatim>\<open>unsigned int\<close>; it counts threads of one group and is kept as a natural number.
\<close>

record ('st, 'rng, 'ps, 'sd, 'ray, 'ev) round_state =
  mem :: "('st, 'rng, 'ps, 'sd, 'ray, 'ev) split_state"
  queue_index :: "queue_id \<Rightarrow> nat"
  phase :: "nat \<Rightarrow> phase"
  local_queue_atomics :: "nat \<Rightarrow> nat"
  staging :: "nat \<Rightarrow> nat \<Rightarrow> int"
  reserved :: "nat \<Rightarrow> bool"
  region :: "nat \<Rightarrow> nat"
  copied :: "nat \<Rightarrow> nat set"

text \<open>
  Modelled from the spec: the function \<^verbatim>\<open>enqueue_ray_index_local\<close> is not in the source.
  This is its local stage for one thread: a thread whose enqueue flag is set takes the next
  offset with an atomic increment of the group's counter and stores its slot index there in
  the group's staging buffer; a thread whose flag is clear abstains.
\<close>

definition enqueue_claim :: "nat \<Rightarrow> (nat \<Rightarrow> int) \<Rightarrow> int \<Rightarrow> bool \<Rightarrow> nat \<times> (nat \<Rightarrow> int)" where
  "enqueue_claim counter buf ray_index enqueue_flag =
     (if enqueue_flag then (counter + 1, buf(counter := ray_index)) else (counter, buf))"

text \<open>
  Modelled from the spec: the global stage of \<^verbatim>\<open>enqueue_ray_index_local\<close>. One
  representative of the group adds the group's final count to the counter of the target
  queue with one atomic fetch-and-add; the value fetched is the start of the group's region.
\<close>

definition enqueue_reserve :: "(queue_id \<Rightarrow> nat) \<Rightarrow> queue_id \<Rightarrow> nat \<Rightarrow> nat \<times> (queue_id \<Rightarrow> nat)" where
  "enqueue_reserve qidx queue_number counter =
     (qidx queue_number, qidx(queue_number := qidx queue_number + counter))"

text \<open>
  Modelled from the spec: the copy of \<^verbatim>\<open>enqueue_ray_index_local\<close>. Entry \<open>k\<close> of the
  staging buffer is stored at offset \<open>k\<close> of the reserved region of the target queue.
\<close>

definition enqueue_copy ::
  "(queue_id \<Rightarrow> nat \<Rightarrow> int) \<Rightarrow> queue_id \<Rightarrow> nat \<Rightarrow> (nat \<Rightarrow> int) \<Rightarrow> nat \<Rightarrow> queue_id \<Rightarrow> nat \<Rightarrow> int" where
  "enqueue_copy queues queue_number base buf k =
     queues(queue_number := (queues queue_number)(base + k := buf k))"

text \<open>
  The steps of a round. \<open>Enter t\<close>: thread \<open>t\<close> runs lines 53 to 55 and reaches the barrier.
  \<open>Compute t\<close>: past that barrier, \<open>t\<close> runs lines 58 to 143 up to the call of the enqueue
  primitive. \<open>LocalStage t\<close>: \<open>t\<close> does the local stage of the primitive and reaches its
  barrier. \<open>Reserve g\<close>: the representative of group \<open>g\<close>, past that barrier, reserves the
  group's region. \<open>Copy g k\<close>: a thread of \<open>g\<close> copies staging entry \<open>k\<close> into the region.
\<close>

datatype action = Enter nat | Compute nat | LocalStage nat | Reserve nat | Copy nat nat

text \<open>
  Modelled from the spec: the function \<^verbatim>\<open>enqueue_ray_index_local\<close> is not in the source.
  This is its local stage as thread \<open>t\<close> runs it: the thread is inside the primitive with the
  ray index and the enqueue flag of its call, claims and stages its entry or abstains, and
  is then at the barrier that ends the local stage.
\<close>

definition stage_locally ::
  "('st, 'kg, 'rng, 'ps, 'sd, 'ls, 'ray, 'ev) dispatch \<Rightarrow> nat \<Rightarrow>
   ('st, 'rng, 'ps, 'sd, 'ray, 'ev) round_state \<Rightarrow>
   ('st, 'rng, 'ps, 'sd, 'ray, 'ev) round_state option" where
  "stage_locally d t \<sigma> =
     (case phase \<sigma> t of
        Pending r f \<Rightarrow>
          (case enqueue_claim (local_queue_atomics \<sigma> (group_id d t))
                  (staging \<sigma> (group_id d t)) r f of
             (c', buf') \<Rightarrow>
               Some (\<sigma>\<lparr>local_queue_atomics := (local_queue_atomics \<sigma>)(group_id d t := c'),
                       staging := (staging \<sigma>)(group_id d t := buf'),
                       phase := (phase \<sigma>)(t := Arrived)\<rparr>))
      | _ \<Rightarrow> None)"

text \<open>
  Modelled from the spec: the global stage of \<^verbatim>\<open>enqueue_ray_index_local\<close>, which is not in
  the source. Exactly one representative thread of the group makes the reservation. The spec
  does not say which thread that is; it is taken to be the group's thread with local index
  0, the one the source singles out in line 53. The representative reserves when it is
  itself inside the primitive and past the barrier that ends the local stage, that is, when
  every thread of its group has done the local stage or has returned in line 75 (the GPU
  variant returns the threads without work because its barriers do not wait for them; see
  the comment of lines 67 to 72 and section 9 of the spec). A representative that has
  returned does not run the primitive and reserves nothing. The primitive belongs to the
  builds with \<^verbatim>\<open>__EMISSION__\<close> (line 134), and a group reserves once.
\<close>

definition reserve_region ::
  "('st, 'kg, 'rng, 'ps, 'sd, 'ls, 'ray, 'ev) dispatch \<Rightarrow> nat \<Rightarrow>
   ('st, 'rng, 'ps, 'sd, 'ray, 'ev) round_state \<Rightarrow>
   ('st, 'rng, 'ps, 'sd, 'ray, 'ev) round_state option" where
  "reserve_region d g \<sigma> =
     (if EMISSION (build d) \<and> \<not> reserved \<sigma> g \<and>
         (\<exists>u \<in> {0..<global_size d}. group_id d u = g \<and> local_id d u = 0 \<and>
            phase \<sigma> u = Arrived) \<and>
         (\<forall>u \<in> {0..<global_size d}. group_id d u = g \<longrightarrow>
            phase \<sigma> u = Arrived \<or> phase \<sigma> u = Exited)
      then case enqueue_reserve (queue_index \<sigma>) QUEUE_SHADOW_RAY_CAST_DL_RAYS
                  (local_queue_atomics \<sigma> g) of
             (base, qidx') \<Rightarrow>
               Some (\<sigma>\<lparr>queue_index := qidx', region := (region \<sigma>)(g := base),
                       reserved := (reserved \<sigma>)(g := True)\<rparr>)
      else None)"

text \<open>
  Modelled from the spec: the copy that ends \<^verbatim>\<open>enqueue_ray_index_local\<close>, which is not in the
  source. Once the group's region is reserved, the group copies its staging buffer into it,
  entry by entry and each entry once. A group that has reserved has threads inside the
  primitive, its representative among them, so there is a thread to copy the entry; the spec
  does not say which thread copies which entry, and the step does not record it.
\<close>

definition copy_entry ::
  "nat \<Rightarrow> nat \<Rightarrow> ('st, 'rng, 'ps, 'sd, 'ray, 'ev) round_state \<Rightarrow>
   ('st, 'rng, 'ps, 'sd, 'ray, 'ev) round_state option" where
  "copy_entry g k \<sigma> =
     (if reserved \<sigma> g \<and> k < local_queue_atomics \<sigma> g \<and> k \<notin> copied \<sigma> g
      then Some (\<sigma>\<lparr>mem := (mem \<sigma>)\<lparr>queue_data :=
                      enqueue_copy (queue_data (mem \<sigma>)) QUEUE_SHADOW_RAY_CAST_DL_RAYS
                        (region \<sigma> g) (staging \<sigma> g) k\<rparr>,
                    copied := (copied \<sigma>)(g := insert k (copied \<sigma> g))\<rparr>)
      else None)"

text \<open>
  One step; \<open>None\<close> when the action is not enabled. \<open>Enter\<close> and \<open>Compute\<close> are the source:
  lines 52 to 56, and the thread body above. Line 56 is a barrier: a thread passes it once
  every thread of its group has reached it. A thread's \<open>Compute\<close> is one step: all it reads
  and writes besides the read-only inputs is its own slot. A thread that reaches the call of
  line 136 is recorded with the ray index and the enqueue flag of the call (the queue of the
  call is always the constant of line 137); a thread that does not has returned. The three
  steps inside the primitive are the definitions above.
\<close>

fun step ::
  "('w::len word, 'kg, 'rng, 'ps, 'sd, 'ls, 'ray, 'ev) dispatch \<Rightarrow> action \<Rightarrow>
   ('w word, 'rng, 'ps, 'sd, 'ray, 'ev) round_state \<Rightarrow>
   ('w word, 'rng, 'ps, 'sd, 'ray, 'ev) round_state option" where
  "step d (Enter t) \<sigma> =
     (if t < global_size d \<and> phase \<sigma> t = Entry
      then Some (\<sigma>\<lparr>local_queue_atomics :=
                      (if local_id d t = 0 then (local_queue_atomics \<sigma>)(group_id d t := 0)
                       else local_queue_atomics \<sigma>),
                    phase := (phase \<sigma>)(t := AtBarrier)\<rparr>)
      else None)"
| "step d (Compute t) \<sigma> =
     (if t < global_size d \<and> phase \<sigma> t = AtBarrier \<and>
         (\<forall>u \<in> {0..<global_size d}. group_id d u = group_id d t \<longrightarrow> phase \<sigma> u \<noteq> Entry)
      then case kernel_direct_lighting (build d) (types d) (engine d) (globals d)
                  (queue_size d) (mem \<sigma>) t of
             (m', call) \<Rightarrow>
               Some (\<sigma>\<lparr>mem := m',
                       phase := (phase \<sigma>)(t := (case call of None \<Rightarrow> Exited
                                                 | Some (r, q, f) \<Rightarrow> Pending r f))\<rparr>)
      else None)"
| "step d (LocalStage t) \<sigma> = stage_locally d t \<sigma>"
| "step d (Reserve g) \<sigma> = reserve_region d g \<sigma>"
| "step d (Copy g k) \<sigma> = copy_entry g k \<sigma>"

text \<open>Running a schedule: the steps in the given order, \<open>None\<close> if one is not enabled.\<close>

fun exec ::
  "('w::len word, 'kg, 'rng, 'ps, 'sd, 'ls, 'ray, 'ev) dispatch \<Rightarrow> action list \<Rightarrow>
   ('w word, 'rng, 'ps, 'sd, 'ray, 'ev) round_state \<Rightarrow>
   ('w word, 'rng, 'ps, 'sd, 'ray, 'ev) round_state option" where
  "exec d [] \<sigma> = Some \<sigma>"
| "exec d (a # as) \<sigma> = (case step d a \<sigma> of None \<Rightarrow> None | Some \<sigma>' \<Rightarrow> exec d as \<sigma>')"

text \<open>
  The state in which a round starts: no thread has entered, no group has reserved or copied
  anything. The split state, the queue counters and the local memory are arbitrary.
\<close>

definition launched :: "('st, 'rng, 'ps, 'sd, 'ray, 'ev) round_state \<Rightarrow> bool" where
  "launched \<sigma> \<longleftrightarrow> (\<forall>t. phase \<sigma> t = Entry) \<and> (\<forall>g. \<not> reserved \<sigma> g \<and> copied \<sigma> g = {})"

text \<open>No group has reserved or copied anything yet.\<close>

abbreviation (input) idle :: "('st, 'rng, 'ps, 'sd, 'ray, 'ev) round_state \<Rightarrow> bool" where
  "idle \<sigma> \<equiv> \<forall>g. \<not> reserved \<sigma> g \<and> copied \<sigma> g = {}"

text \<open>
  The round is over: every thread has left the stage, having returned early or having done
  the local stage, and, where the enqueue primitive is compiled in, nothing is left to do
  inside it: every representative that is inside the primitive has reserved its group's
  region, and every staged entry has been copied.
\<close>

definition complete ::
  "('st, 'kg, 'rng, 'ps, 'sd, 'ls, 'ray, 'ev) dispatch \<Rightarrow>
   ('st, 'rng, 'ps, 'sd, 'ray, 'ev) round_state \<Rightarrow> bool" where
  "complete d \<sigma> \<longleftrightarrow>
     (\<forall>t \<in> {0..<global_size d}. phase \<sigma> t = Arrived \<or> phase \<sigma> t = Exited) \<and>
     (EMISSION (build d) \<longrightarrow>
        (\<forall>t \<in> {0..<global_size d}.
           (local_id d t = 0 \<and> phase \<sigma> t = Arrived \<longrightarrow> reserved \<sigma> (group_id d t)) \<and>
           (\<forall>k \<in> {0..<local_queue_atomics \<sigma> (group_id d t)}. k \<in> copied \<sigma> (group_id d t))))"

section \<open>What a round is measured against\<close>

text \<open>The slot thread \<open>t\<close> is dispatched on: what it fetches from the input queue.\<close>

definition dispatched_slot ::
  "('st, 'kg, 'rng, 'ps, 'sd, 'ls, 'ray, 'ev) dispatch \<Rightarrow>
   ('st, 'rng, 'ps, 'sd, 'ray, 'ev) split_state \<Rightarrow> nat \<Rightarrow> int" where
  "dispatched_slot d m t =
     get_ray_index (globals d) t QUEUE_ACTIVE_AND_REGENERATED_RAYS (queue_data m)
       (queue_size d) 0"

text \<open>
  Thread \<open>t\<close> is dispatched on a slot (not on the EMPTY sentinel) and that slot passes every
  guard and both collaborators, judged on the split state \<open>m\<close>.
\<close>

definition accepts ::
  "('st, 'kg, 'rng, 'ps, 'sd, 'ls, 'ray, 'ev) dispatch \<Rightarrow>
   ('st, 'rng, 'ps, 'sd, 'ray, 'ev) split_state \<Rightarrow> nat \<Rightarrow> bool" where
  "accepts d m t \<longleftrightarrow>
     dispatched_slot d m t \<noteq> QUEUE_EMPTY_SLOT (types d) \<and>
     slot_sample (build d) (types d) (engine d) (globals d) m (dispatched_slot d m t) \<noteq> None"

text \<open>The slots of the accepting threads.\<close>

definition qualifying ::
  "('st, 'kg, 'rng, 'ps, 'sd, 'ls, 'ray, 'ev) dispatch \<Rightarrow>
   ('st, 'rng, 'ps, 'sd, 'ray, 'ev) split_state \<Rightarrow> int set" where
  "qualifying d m = dispatched_slot d m ` {t. t < global_size d \<and> accepts d m t}"

text \<open>
  The slot indices handed to the enqueue primitive with the enqueue flag set, when the
  threads run on the split state \<open>m\<close>.
\<close>

definition flagged ::
  "('w::len word, 'kg, 'rng, 'ps, 'sd, 'ls, 'ray, 'ev) dispatch \<Rightarrow>
   ('w word, 'rng, 'ps, 'sd, 'ray, 'ev) split_state \<Rightarrow> int set" where
  "flagged d m =
     {r. \<exists>t \<in> {0..<global_size d}.
           snd (kernel_direct_lighting (build d) (types d) (engine d) (globals d)
                  (queue_size d) m t) = Some (r, QUEUE_SHADOW_RAY_CAST_DL_RAYS, True)}"

text \<open>
  The input queue holds a slot at most once (the queue invariant of the spec): two threads
  are never dispatched on the same slot.
\<close>

definition distinct_slots ::
  "('st, 'kg, 'rng, 'ps, 'sd, 'ls, 'ray, 'ev) dispatch \<Rightarrow>
   ('st, 'rng, 'ps, 'sd, 'ray, 'ev) split_state \<Rightarrow> bool" where
  "distinct_slots d m \<longleftrightarrow>
     (\<forall>t \<in> {0..<global_size d}. \<forall>u \<in> {0..<global_size d}.
        dispatched_slot d m t = dispatched_slot d m u \<and>
        dispatched_slot d m t \<noteq> QUEUE_EMPTY_SLOT (types d) \<longrightarrow> t = u)"

text \<open>Every work-group has its thread with local index 0.\<close>

definition groups_led :: "('st, 'kg, 'rng, 'ps, 'sd, 'ls, 'ray, 'ev) dispatch \<Rightarrow> bool" where
  "groups_led d \<longleftrightarrow>
     (\<forall>t \<in> {0..<global_size d}. \<exists>u \<in> {0..<global_size d}.
        group_id d u = group_id d t \<and> local_id d u = 0)"

text \<open>
  Thread \<open>t\<close> reaches the call of the enqueue primitive (line 136) when it runs on the split
  state \<open>m\<close>: it does not return in line 75, and the call is compiled in.
\<close>

definition enters ::
  "('w::len word, 'kg, 'rng, 'ps, 'sd, 'ls, 'ray, 'ev) dispatch \<Rightarrow>
   ('w word, 'rng, 'ps, 'sd, 'ray, 'ev) split_state \<Rightarrow> nat \<Rightarrow> bool" where
  "enters d m t \<longleftrightarrow>
     snd (kernel_direct_lighting (build d) (types d) (engine d) (globals d) (queue_size d) m t)
       \<noteq> None"

text \<open>
  No work-group loses the representative it needs: every accepting thread has, in its group,
  a thread with local index 0 that reaches the enqueue primitive. In a build without
  \<^verbatim>\<open>__COMPUTE_DEVICE_GPU__\<close> every thread reaches it; in a GPU build this asks that the
  representative of a group with an accepting thread does not find the input queue
  exhausted.
\<close>

definition represented ::
  "('w::len word, 'kg, 'rng, 'ps, 'sd, 'ls, 'ray, 'ev) dispatch \<Rightarrow>
   ('w word, 'rng, 'ps, 'sd, 'ray, 'ev) split_state \<Rightarrow> bool" where
  "represented d m \<longleftrightarrow>
     (\<forall>t \<in> {0..<global_size d}. accepts d m t \<longrightarrow>
        (\<exists>u \<in> {0..<global_size d}.
           group_id d u = group_id d t \<and> local_id d u = 0 \<and> enters d m u))"

section \<open>The invariant of a round\<close>

text \<open>Two split states agree on the state flags and the scratch fields of slot \<open>i\<close>.\<close>

definition slot_eq ::
  "('st, 'rng, 'ps, 'sd, 'ray, 'ev) split_state \<Rightarrow>
   ('st, 'rng, 'ps, 'sd, 'ray, 'ev) split_state \<Rightarrow> int \<Rightarrow> bool" where
  "slot_eq m m' i \<longleftrightarrow>
     ray_state m i = ray_state m' i \<and> light_ray m i = light_ray m' i \<and>
     bsdf_eval m i = bsdf_eval m' i \<and> is_lamp m i = is_lamp m' i"

text \<open>Thread \<open>t\<close> has run the body of the stage.\<close>

definition started :: "('st, 'rng, 'ps, 'sd, 'ray, 'ev) round_state \<Rightarrow> nat \<Rightarrow> bool" where
  "started \<sigma> t \<longleftrightarrow> phase \<sigma> t \<noteq> Entry \<and> phase \<sigma> t \<noteq> AtBarrier"

text \<open>Slot \<open>i\<close> belongs to a thread that has run the body.\<close>

definition touched ::
  "('st, 'kg, 'rng, 'ps, 'sd, 'ls, 'ray, 'ev) dispatch \<Rightarrow>
   ('st, 'rng, 'ps, 'sd, 'ray, 'ev) split_state \<Rightarrow>
   ('st, 'rng, 'ps, 'sd, 'ray, 'ev) round_state \<Rightarrow> int \<Rightarrow> bool" where
  "touched d m \<sigma> i \<longleftrightarrow>
     i \<noteq> QUEUE_EMPTY_SLOT (types d) \<and>
     (\<exists>t < global_size d. dispatched_slot d m t = i \<and> started \<sigma> t)"

text \<open>
  The parts of the invariant, relative to the split state \<open>m\<close> and the queue counters \<open>q0\<close>
  of the start. First: the inputs and all queues but the output queue are as at the start.
\<close>

definition inv_frame ::
  "('st, 'rng, 'ps, 'sd, 'ray, 'ev) split_state \<Rightarrow> (queue_id \<Rightarrow> nat) \<Rightarrow>
   ('st, 'rng, 'ps, 'sd, 'ray, 'ev) round_state \<Rightarrow> bool" where
  "inv_frame m q0 \<sigma> \<longleftrightarrow>
     rng (mem \<sigma>) = rng m \<and> path_state (mem \<sigma>) = path_state m \<and> sd (mem \<sigma>) = sd m \<and>
     sd_DL_shadow (mem \<sigma>) = sd_DL_shadow m \<and>
     (\<forall>q. q \<noteq> QUEUE_SHADOW_RAY_CAST_DL_RAYS \<longrightarrow>
        queue_data (mem \<sigma>) q = queue_data m q \<and> queue_index \<sigma> q = q0 q)"

text \<open>
  The slot of a thread that has run the body holds what the body makes of the initial state;
  every other slot is as at the start.
\<close>

definition inv_slots ::
  "('w::len word, 'kg, 'rng, 'ps, 'sd, 'ls, 'ray, 'ev) dispatch \<Rightarrow>
   ('w word, 'rng, 'ps, 'sd, 'ray, 'ev) split_state \<Rightarrow>
   ('w word, 'rng, 'ps, 'sd, 'ray, 'ev) round_state \<Rightarrow> bool" where
  "inv_slots d m \<sigma> \<longleftrightarrow>
     (\<forall>i. slot_eq (mem \<sigma>)
            (if touched d m \<sigma> i
             then fst (direct_lighting_body (build d) (types d) (engine d) (globals d) m i)
             else m) i)"

text \<open>
  A thread inside the primitive carries its own slot and the flag decided on the initial
  state; a thread that returned was not accepting; no thread runs the body while a thread of
  its group has yet to enter.
\<close>

definition inv_phase ::
  "('st, 'kg, 'rng, 'ps, 'sd, 'ls, 'ray, 'ev) dispatch \<Rightarrow>
   ('st, 'rng, 'ps, 'sd, 'ray, 'ev) split_state \<Rightarrow>
   ('st, 'rng, 'ps, 'sd, 'ray, 'ev) round_state \<Rightarrow> bool" where
  "inv_phase d m \<sigma> \<longleftrightarrow>
     (\<forall>t. (\<forall>r f. phase \<sigma> t = Pending r f \<longrightarrow>
               t < global_size d \<and> r = dispatched_slot d m t \<and> f = accepts d m t) \<and>
          (phase \<sigma> t = Exited \<longrightarrow> \<not> accepts d m t) \<and>
          (started \<sigma> t \<longrightarrow>
             (\<forall>u < global_size d. group_id d u = group_id d t \<longrightarrow> phase \<sigma> u \<noteq> Entry)))"

text \<open>
  Once a group's counter has been reset, the staging buffer up to the counter lists, without
  repetition, the slots of the group's accepting threads that have done the local stage.
\<close>

definition inv_local ::
  "('st, 'kg, 'rng, 'ps, 'sd, 'ls, 'ray, 'ev) dispatch \<Rightarrow>
   ('st, 'rng, 'ps, 'sd, 'ray, 'ev) split_state \<Rightarrow>
   ('st, 'rng, 'ps, 'sd, 'ray, 'ev) round_state \<Rightarrow> bool" where
  "inv_local d m \<sigma> \<longleftrightarrow>
     (\<forall>g. (\<exists>u < global_size d. group_id d u = g \<and> local_id d u = 0 \<and> phase \<sigma> u \<noteq> Entry) \<longrightarrow>
          inj_on (staging \<sigma> g) {0..<local_queue_atomics \<sigma> g} \<and>
          staging \<sigma> g ` {0..<local_queue_atomics \<sigma> g} =
            dispatched_slot d m `
              {t. t < global_size d \<and> group_id d t = g \<and> phase \<sigma> t = Arrived \<and> accepts d m t})"

text \<open>
  A group reserves only when all its threads are past the local stage, and copies only what
  it has reserved.
\<close>

definition inv_reserved ::
  "('st, 'kg, 'rng, 'ps, 'sd, 'ls, 'ray, 'ev) dispatch \<Rightarrow>
   ('st, 'rng, 'ps, 'sd, 'ray, 'ev) round_state \<Rightarrow> bool" where
  "inv_reserved d \<sigma> \<longleftrightarrow>
     (\<forall>g. (reserved \<sigma> g \<longrightarrow>
             (\<forall>t < global_size d. group_id d t = g \<longrightarrow>
                phase \<sigma> t = Arrived \<or> phase \<sigma> t = Exited)) \<and>
          (\<forall>k \<in> copied \<sigma> g. reserved \<sigma> g \<and> k < local_queue_atomics \<sigma> g))"

text \<open>The region of the output queue that group \<open>g\<close> has reserved.\<close>

definition block :: "('st, 'rng, 'ps, 'sd, 'ray, 'ev) round_state \<Rightarrow> nat \<Rightarrow> nat set" where
  "block \<sigma> g = {region \<sigma> g ..< region \<sigma> g + local_queue_atomics \<sigma> g}"

text \<open>
  The reserved regions are disjoint and together they are exactly what has been added to the
  output queue's counter.
\<close>

definition inv_regions ::
  "(queue_id \<Rightarrow> nat) \<Rightarrow> ('st, 'rng, 'ps, 'sd, 'ray, 'ev) round_state \<Rightarrow> bool" where
  "inv_regions q0 \<sigma> \<longleftrightarrow>
     (\<Union>g \<in> {g. reserved \<sigma> g}. block \<sigma> g) =
       {q0 QUEUE_SHADOW_RAY_CAST_DL_RAYS ..< queue_index \<sigma> QUEUE_SHADOW_RAY_CAST_DL_RAYS} \<and>
     q0 QUEUE_SHADOW_RAY_CAST_DL_RAYS \<le> queue_index \<sigma> QUEUE_SHADOW_RAY_CAST_DL_RAYS \<and>
     (\<forall>g g'. reserved \<sigma> g \<and> reserved \<sigma> g' \<and> g \<noteq> g' \<longrightarrow> block \<sigma> g \<inter> block \<sigma> g' = {})"

text \<open>
  The output queue holds the staged entries where they have been copied and is as at the
  start everywhere else.
\<close>

definition inv_queue ::
  "('st, 'rng, 'ps, 'sd, 'ray, 'ev) split_state \<Rightarrow>
   ('st, 'rng, 'ps, 'sd, 'ray, 'ev) round_state \<Rightarrow> bool" where
  "inv_queue m \<sigma> \<longleftrightarrow>
     (\<forall>g. \<forall>k \<in> copied \<sigma> g.
        queue_data (mem \<sigma>) QUEUE_SHADOW_RAY_CAST_DL_RAYS (region \<sigma> g + k) = staging \<sigma> g k) \<and>
     (\<forall>p. (\<forall>g. \<forall>k \<in> copied \<sigma> g. p \<noteq> region \<sigma> g + k) \<longrightarrow>
        queue_data (mem \<sigma>) QUEUE_SHADOW_RAY_CAST_DL_RAYS p =
          queue_data m QUEUE_SHADOW_RAY_CAST_DL_RAYS p)"

text \<open>
  A group has reserved only with the primitive compiled in, and through a representative
  that is inside the primitive.
\<close>

definition inv_groups ::
  "('st, 'kg, 'rng, 'ps, 'sd, 'ls, 'ray, 'ev) dispatch \<Rightarrow>
   ('st, 'rng, 'ps, 'sd, 'ray, 'ev) round_state \<Rightarrow> bool" where
  "inv_groups d \<sigma> \<longleftrightarrow>
     (\<forall>g. reserved \<sigma> g \<longrightarrow>
          EMISSION (build d) \<and>
          (\<exists>t < global_size d. group_id d t = g \<and> local_id d t = 0 \<and> phase \<sigma> t = Arrived))"

text \<open>
  Where a thread stands tells whether it reached the call of the primitive: a thread that
  returned did not, a thread inside the primitive did.
\<close>

definition inv_call ::
  "('w::len word, 'kg, 'rng, 'ps, 'sd, 'ls, 'ray, 'ev) dispatch \<Rightarrow>
   ('w word, 'rng, 'ps, 'sd, 'ray, 'ev) split_state \<Rightarrow>
   ('w word, 'rng, 'ps, 'sd, 'ray, 'ev) round_state \<Rightarrow> bool" where
  "inv_call d m \<sigma> \<longleftrightarrow>
     (\<forall>t. (phase \<sigma> t = Exited \<longrightarrow> \<not> enters d m t) \<and>
          (phase \<sigma> t = Arrived \<or> (\<exists>r f. phase \<sigma> t = Pending r f) \<longrightarrow> enters d m t))"

text \<open>The invariant.\<close>

definition round_inv ::
  "('w::len word, 'kg, 'rng, 'ps, 'sd, 'ls, 'ray, 'ev) dispatch \<Rightarrow>
   ('w word, 'rng, 'ps, 'sd, 'ray, 'ev) split_state \<Rightarrow> (queue_id \<Rightarrow> nat) \<Rightarrow>
   ('w word, 'rng, 'ps, 'sd, 'ray, 'ev) round_state \<Rightarrow> bool" where
  "round_inv d m q0 \<sigma> \<longleftrightarrow>
     inv_frame m q0 \<sigma> \<and> inv_slots d m \<sigma> \<and> inv_phase d m \<sigma> \<and> inv_local d m \<sigma> \<and>
     inv_reserved d \<sigma> \<and> inv_regions q0 \<sigma> \<and> inv_queue m \<sigma> \<and> inv_groups d \<sigma> \<and>
     inv_call d m \<sigma>"

text \<open>
  A part of the invariant holds also when the input queue names a slot twice. The inputs of
  the threads are as at the start.
\<close>

definition inv_inputs ::
  "('st, 'rng, 'ps, 'sd, 'ray, 'ev) split_state \<Rightarrow>
   ('st, 'rng, 'ps, 'sd, 'ray, 'ev) round_state \<Rightarrow> bool" where
  "inv_inputs m \<sigma> \<longleftrightarrow>
     rng (mem \<sigma>) = rng m \<and> path_state (mem \<sigma>) = path_state m \<and> sd (mem \<sigma>) = sd m \<and>
     sd_DL_shadow (mem \<sigma>) = sd_DL_shadow m \<and>
     queue_data (mem \<sigma>) QUEUE_ACTIVE_AND_REGENERATED_RAYS =
       queue_data m QUEUE_ACTIVE_AND_REGENERATED_RAYS"

text \<open>A slot that the initial state rejects keeps its state flags.\<close>

definition inv_rejected ::
  "('w::len word, 'kg, 'rng, 'ps, 'sd, 'ls, 'ray, 'ev) dispatch \<Rightarrow>
   ('w word, 'rng, 'ps, 'sd, 'ray, 'ev) split_state \<Rightarrow>
   ('w word, 'rng, 'ps, 'sd, 'ray, 'ev) round_state \<Rightarrow> bool" where
  "inv_rejected d m \<sigma> \<longleftrightarrow>
     (\<forall>i. slot_sample (build d) (types d) (engine d) (globals d) m i = None \<longrightarrow>
          ray_state (mem \<sigma>) i = ray_state m i)"

text \<open>
  A thread that carries a set enqueue flag is an accepting thread, and so a group whose
  counter, once reset, is not zero has an accepting thread.
\<close>

definition inv_flagged ::
  "('st, 'kg, 'rng, 'ps, 'sd, 'ls, 'ray, 'ev) dispatch \<Rightarrow>
   ('st, 'rng, 'ps, 'sd, 'ray, 'ev) split_state \<Rightarrow>
   ('st, 'rng, 'ps, 'sd, 'ray, 'ev) round_state \<Rightarrow> bool" where
  "inv_flagged d m \<sigma> \<longleftrightarrow>
     (\<forall>t r. phase \<sigma> t = Pending r True \<longrightarrow> t < global_size d \<and> accepts d m t) \<and>
     (\<forall>g. (\<exists>u < global_size d. group_id d u = g \<and> local_id d u = 0 \<and> phase \<sigma> u \<noteq> Entry) \<and>
          0 < local_queue_atomics \<sigma> g \<longrightarrow>
          (\<exists>t < global_size d. group_id d t = g \<and> accepts d m t))"

text \<open>The invariant for every input.\<close>

definition round_core ::
  "('w::len word, 'kg, 'rng, 'ps, 'sd, 'ls, 'ray, 'ev) dispatch \<Rightarrow>
   ('w word, 'rng, 'ps, 'sd, 'ray, 'ev) split_state \<Rightarrow>
   ('w word, 'rng, 'ps, 'sd, 'ray, 'ev) round_state \<Rightarrow> bool" where
  "round_core d m \<sigma> \<longleftrightarrow>
     inv_inputs m \<sigma> \<and> inv_rejected d m \<sigma> \<and> inv_flagged d m \<sigma> \<and> inv_reserved d \<sigma> \<and>
     inv_groups d \<sigma> \<and> inv_call d m \<sigma>"

section \<open>The two device variants\<close>

text \<open>The dispatch compiled with or without \<^verbatim>\<open>__COMPUTE_DEVICE_GPU__\<close>.\<close>

definition variant ::
  "bool \<Rightarrow> ('st, 'kg, 'rng, 'ps, 'sd, 'ls, 'ray, 'ev) dispatch \<Rightarrow>
   ('st, 'kg, 'rng, 'ps, 'sd, 'ls, 'ray, 'ev) dispatch" where
  "variant gpu d = d\<lparr>build := (build d)\<lparr>COMPUTE_DEVICE_GPU := gpu\<rparr>\<rparr>"

text \<open>Thread \<open>t\<close> finds the input queue exhausted.\<close>

definition empty_thread ::
  "('st, 'kg, 'rng, 'ps, 'sd, 'ls, 'ray, 'ev) dispatch \<Rightarrow>
   ('st, 'rng, 'ps, 'sd, 'ray, 'ev) split_state \<Rightarrow> nat \<Rightarrow> bool" where
  "empty_thread d m t \<longleftrightarrow> dispatched_slot d m t = QUEUE_EMPTY_SLOT (types d)"







section \<open>A concrete instance\<close>

text \<open>
  A small instance used to evaluate the definitions: ray states are bytes whose low three
  bits hold the state (0 is active) and whose bit 5 is the shadow-ray flag; the input queue
  holds the slots 3, 7 and 4, so that a fourth thread finds it exhausted. Slot 3 is
  accepted, for slot 7 the illumination is rejected, slot 4 is not active; slot 9 is not
  dispatched.
\<close>

definition example_types :: "(8 word, bool, nat, 32 word) kernel_types" where
  "example_types =
     \<lparr>QUEUE_EMPTY_SLOT = - 1, RAY_ACTIVE = 0, RAY_SHADOW_RAY_CAST_DL = 32,
      SD_BSDF_HAS_EVAL = 2, state_test = (\<lambda>w st. w AND 7 = st),
      use_direct_light = (\<lambda>kg. kg), fetch_flag = (\<lambda>sdv. sdv),
      fetch_time = (\<lambda>sdv. 0), fetch_P = (\<lambda>sdv. (0, 0, 0)), bounce = int\<rparr>"

definition example_externals ::
  "(bool, 32 word, nat, 32 word, 32 word, 32 word \<times> 32 word, nat) externals" where
  "example_externals =
     \<lparr>path_state_rng_1D = (\<lambda>kg r st d. r),
      path_state_rng_2D = (\<lambda>kg r st d. (r, r + 1)),
      path_state_rng_light_termination = (\<lambda>kg r st. of_nat st),
      light_sample = (\<lambda>kg t u v tm P bnc. if t = 0 then None else Some u),
      direct_emission =
        (\<lambda>kg sdv sdsh ls st tm term. if term = 0 then None else Some ((ls, term), st, even st))\<rparr>"

definition example_build :: "bool \<Rightarrow> build_config" where
  "example_build gpu = \<lparr>COMPUTE_DEVICE_GPU = gpu, EMISSION = True, OBJECT_MOTION = True\<rparr>"

definition example_state :: "(8 word, 32 word, nat, 32 word, 32 word \<times> 32 word, nat) split_state" where
  "example_state =
     \<lparr>ray_state = (\<lambda>i. 1)(3 := 16, 7 := 0, 9 := 0),
      rng = (\<lambda>i. 0)(3 := 5, 7 := 5),
      path_state = (\<lambda>i. 0)(3 := 2, 9 := 2),
      sd = 3, sd_DL_shadow = 0,
      light_ray = (\<lambda>i. (0, 0)), bsdf_eval = (\<lambda>i. 0), is_lamp = (\<lambda>i. False),
      queue_data = (\<lambda>q k. - 1)(QUEUE_ACTIVE_AND_REGENERATED_RAYS := (\<lambda>k. - 1)(0 := 3, 1 := 7, 2 := 4))\<rparr>"



text \<open>A second state: the same inputs for slot 3, other contents elsewhere.\<close>

definition example_state' ::
  "(8 word, 32 word, nat, 32 word, 32 word \<times> 32 word, nat) split_state" where
  "example_state' =
     example_state\<lparr>ray_state := (\<lambda>i. 2)(3 := 8), rng := (\<lambda>i. 9)(3 := 5),
       path_state := (\<lambda>i. 1)(3 := 2), light_ray := (\<lambda>i. (7, 7)), bsdf_eval := (\<lambda>i. 4),
       is_lamp := (\<lambda>i. True)\<rparr>"

text \<open>A second engine, which finds a light and accepts whatever it is given.\<close>

definition eager_externals ::
  "(bool, 32 word, nat, 32 word, 32 word, 32 word \<times> 32 word, nat) externals" where
  "eager_externals =
     example_externals\<lparr>light_sample := (\<lambda>kg t u v tm P bnc. Some u),
       direct_emission := (\<lambda>kg sdv sdsh ls st tm term. Some ((ls, term), st, True))\<rparr>"

text \<open>
  A dispatch of four threads in two groups (threads 0 and 2, threads 1 and 3) on the state
  above, with the engine that accepts: the threads 0 and 1 qualify, thread 2 is dispatched on
  a slot that is not active, thread 3 finds the queue exhausted. The local memory starts with
  junk in it.
\<close>

definition example_dispatch ::
  "bool \<Rightarrow> (8 word, bool, 32 word, nat, 32 word, 32 word, 32 word \<times> 32 word, nat) dispatch" where
  "example_dispatch gpu =
     \<lparr>build = example_build gpu, types = example_types, engine = eager_externals,
      globals = True, queue_size = 4, global_size = 4,
      group_id = (\<lambda>t. t mod 2), local_id = (\<lambda>t. t div 2)\<rparr>"

definition example_launch ::
  "(8 word, 32 word, nat, 32 word, 32 word \<times> 32 word, nat) round_state" where
  "example_launch =
     \<lparr>mem = example_state, queue_index = (\<lambda>q. 0), phase = (\<lambda>t. Entry),
      local_queue_atomics = (\<lambda>g. 5), staging = (\<lambda>g k. 0), reserved = (\<lambda>g. False),
      region = (\<lambda>g. 0), copied = (\<lambda>g. {})\<rparr>"

text \<open>
  One interleaving of the CPU variant, in which group 1 reserves before group 0, and the same
  for the GPU variant, where thread 3 returns before the primitive.
\<close>

definition example_schedule :: "action list" where
  "example_schedule =
     [Enter 3, Enter 1, Enter 0, Compute 1, Enter 2, Compute 3, LocalStage 1, Compute 2,
      LocalStage 3, Reserve 1, Compute 0, LocalStage 0, Copy 1 0, LocalStage 2, Reserve 0,
      Copy 0 0]"





section \<open>Properties of one thread\<close>

lemma body_by_sample:
  "direct_lighting_body b kt ext kg s i =
     (case slot_sample b kt ext kg s i of
        None \<Rightarrow> (s, False)
      | Some (lr, L_light, lamp) \<Rightarrow>
          (s\<lparr>light_ray := (light_ray s)(i := lr),
             bsdf_eval := (bsdf_eval s)(i := L_light),
             is_lamp := (is_lamp s)(i := lamp),
             ray_state := ADD_RAY_FLAG (ray_state s) i (RAY_SHADOW_RAY_CAST_DL kt)\<rparr>, True))"
  by (simp add: direct_lighting_body_def slot_sample_def)

lemma sample_unfold:
  assumes "light_t = path_state_rng_1D ext kg r st PRNG_LIGHT"
    and "(light_u, light_v) = path_state_rng_2D ext kg r st PRNG_LIGHT_U"
    and "terminate = path_state_rng_light_termination ext kg r st"
  shows "sample_direct_light b kt ext kg r st sdv sdsh =
     (case light_sample ext kg light_t light_u light_v (fetch_time kt sdv) (fetch_P kt sdv)
             (bounce kt st) of
        None \<Rightarrow> None
      | Some ls \<Rightarrow> direct_emission ext kg sdv sdsh ls st
                     (if OBJECT_MOTION b then Some (fetch_time kt sdv) else None) terminate)"
  unfolding sample_direct_light_def assms(1) assms(3) assms(2)[symmetric] by simp

lemma kernel_by_sample:
  "kernel_direct_lighting b kt ext kg qs s t =
     (let i = queue_data s QUEUE_ACTIVE_AND_REGENERATED_RAYS t in
      if i = QUEUE_EMPTY_SLOT kt
      then (s, if EMISSION b \<and> \<not> COMPUTE_DEVICE_GPU b
               then Some (i, QUEUE_SHADOW_RAY_CAST_DL_RAYS, False) else None)
      else (fst (direct_lighting_body b kt ext kg s i),
            if EMISSION b
            then Some (i, QUEUE_SHADOW_RAY_CAST_DL_RAYS, slot_sample b kt ext kg s i \<noteq> None)
            else None))"
  by (auto simp add: kernel_direct_lighting_def get_ray_index_def body_by_sample Let_def
      split: option.splits prod.splits)

lemma example_state_simps:
  "ray_state example_state = (\<lambda>i. 1)(3 := 16, 7 := 0, 9 := 0)"
  "rng example_state = (\<lambda>i. 0)(3 := 5, 7 := 5)"
  "path_state example_state = (\<lambda>i. 0)(3 := 2, 9 := 2)"
  "sd example_state = 3" "sd_DL_shadow example_state = 0"
  "light_ray example_state = (\<lambda>i. (0, 0))" "bsdf_eval example_state = (\<lambda>i. 0)"
  "is_lamp example_state = (\<lambda>i. False)"
  "queue_data example_state =
     (\<lambda>q k. - 1)(QUEUE_ACTIVE_AND_REGENERATED_RAYS := (\<lambda>k. - 1)(0 := 3, 1 := 7, 2 := 4))"
  by (simp_all add: example_state_def)

lemma example_types_simps:
  "QUEUE_EMPTY_SLOT example_types = - 1" "RAY_ACTIVE example_types = 0"
  "RAY_SHADOW_RAY_CAST_DL example_types = 32" "SD_BSDF_HAS_EVAL example_types = 2"
  "state_test example_types = (\<lambda>w st. w AND 7 = st)"
  "use_direct_light example_types = (\<lambda>kg. kg)" "fetch_flag example_types = (\<lambda>sdv. sdv)"
  "fetch_time example_types = (\<lambda>sdv. 0)" "fetch_P example_types = (\<lambda>sdv. (0, 0, 0))"
  "bounce example_types = int"
  by (simp_all add: example_types_def)

lemma example_externals_simps:
  "path_state_rng_1D example_externals = (\<lambda>kg r st d. r)"
  "path_state_rng_2D example_externals = (\<lambda>kg r st d. (r, r + 1))"
  "path_state_rng_light_termination example_externals = (\<lambda>kg r st. of_nat st)"
  "light_sample example_externals = (\<lambda>kg t u v tm P bnc. if t = 0 then None else Some u)"
  "direct_emission example_externals =
     (\<lambda>kg sdv sdsh ls st tm term. if term = 0 then None else Some ((ls, term), st, even st))"
  by (simp_all add: example_externals_def)

lemma example_build_simps:
  "COMPUTE_DEVICE_GPU (example_build gpu) = gpu" "EMISSION (example_build gpu)"
  "OBJECT_MOTION (example_build gpu)"
  by (simp_all add: example_build_def)

lemmas example_simps =
  example_state_simps example_types_simps example_externals_simps example_build_simps


text \<open>
  Claim C1. When a dispatched slot is active, the direct-lighting block is compiled in and
  enabled, the BSDF can be evaluated, \<^verbatim>\<open>light_sample\<close> finds a light and
  \<^verbatim>\<open>direct_emission\<close> accepts, then the thread stores the shadow ray, the BSDF
  evaluation and the lamp flag in the slot, ORs \<^verbatim>\<open>RAY_SHADOW_RAY_CAST_DL\<close> into the
  slot's ray state, and calls the enqueue primitive for \<^verbatim>\<open>QUEUE_SHADOW_RAY_CAST_DL_RAYS\<close>
  with the slot index and the enqueue flag set.
\<close>

theorem accepted_slot_written:
  fixes s :: "('w::len word, 'rng, 'ps, 'sd, 'ray, 'ev) split_state"
  assumes fetch: "queue_data s QUEUE_ACTIVE_AND_REGENERATED_RAYS thread_index = ray_index"
    and dispatched: "ray_index \<noteq> QUEUE_EMPTY_SLOT kt"
    and active: "IS_STATE kt (ray_state s) ray_index (RAY_ACTIVE kt)"
    and emission: "EMISSION b"
    and direct: "use_direct_light kt kg"
    and has_eval: "fetch_flag kt (sd s) AND SD_BSDF_HAS_EVAL kt \<noteq> 0"
    and rng1: "light_t = path_state_rng_1D ext kg (rng s ray_index) (path_state s ray_index) PRNG_LIGHT"
    and rng2: "(light_u, light_v) =
                 path_state_rng_2D ext kg (rng s ray_index) (path_state s ray_index) PRNG_LIGHT_U"
    and rng3: "terminate =
                 path_state_rng_light_termination ext kg (rng s ray_index) (path_state s ray_index)"
    and light: "light_sample ext kg light_t light_u light_v (fetch_time kt (sd s))
                  (fetch_P kt (sd s)) (bounce kt (path_state s ray_index)) = Some ls"
    and emit: "direct_emission ext kg (sd s) (sd_DL_shadow s) ls (path_state s ray_index)
                  (if OBJECT_MOTION b then Some (fetch_time kt (sd s)) else None) terminate
                = Some (lr, L_light, lamp)"
    and run: "kernel_direct_lighting b kt ext kg qs s thread_index = (s', call)"
  shows "light_ray s' ray_index = lr \<and> bsdf_eval s' ray_index = L_light \<and>
         is_lamp s' ray_index = lamp \<and>
         ray_state s' ray_index = ray_state s ray_index OR RAY_SHADOW_RAY_CAST_DL kt \<and>
         call = Some (ray_index, QUEUE_SHADOW_RAY_CAST_DL_RAYS, True)"
proof -
  have "slot_sample b kt ext kg s ray_index = Some (lr, L_light, lamp)"
    using active emission direct has_eval light emit
    by (simp add: slot_sample_def sample_unfold[OF rng1 rng2 rng3])
  then show ?thesis
    using run fetch dispatched emission
    by (auto simp add: kernel_direct_lighting_def get_ray_index_def body_by_sample ADD_RAY_FLAG_def)
qed


theorem accepted_slot_written_witness:
  "\<exists>s'. kernel_direct_lighting (example_build False) example_types example_externals
           True 4 example_state 0 = (s', Some (3, QUEUE_SHADOW_RAY_CAST_DL_RAYS, True)) \<and>
        light_ray s' 3 = (5, 2) \<and> bsdf_eval s' 3 = 2 \<and> is_lamp s' 3 \<and> ray_state s' 3 = 48"
proof -
  obtain s' call where run:
    "kernel_direct_lighting (example_build False) example_types example_externals
       True 4 example_state 0 = (s', call)"
    by (cases "kernel_direct_lighting (example_build False) example_types example_externals
       True 4 example_state 0") 
  have "light_ray s' 3 = (5, 2) \<and> bsdf_eval s' 3 = 2 \<and> is_lamp s' 3 = True \<and>
        ray_state s' 3 = ray_state example_state 3 OR RAY_SHADOW_RAY_CAST_DL example_types \<and>
        call = Some (3, QUEUE_SHADOW_RAY_CAST_DL_RAYS, True)"
  proof (rule accepted_slot_written [where s = example_state and thread_index = 0
        and kt = example_types and b = "example_build False" and kg = True
        and ext = example_externals and light_t = 5 and light_u = 5 and light_v = 6
        and terminate = 2 and ls = 5 and qs = 4, OF _ _ _ _ _ _ _ _ _ _ _ run])
    show "queue_data example_state QUEUE_ACTIVE_AND_REGENERATED_RAYS 0 = 3"
      by (simp add: example_simps)
    show "3 \<noteq> QUEUE_EMPTY_SLOT example_types" by (simp add: example_simps)
    show "IS_STATE example_types (ray_state example_state) 3 (RAY_ACTIVE example_types)"
      by (simp add: example_simps IS_STATE_def)
    show "EMISSION (example_build False)" by (simp add: example_simps)
    show "use_direct_light example_types True" by (simp add: example_simps)
    show "fetch_flag example_types (sd example_state) AND SD_BSDF_HAS_EVAL example_types \<noteq> 0"
      by (simp add: example_simps)
    show "5 = path_state_rng_1D example_externals True (rng example_state 3)
                (path_state example_state 3) PRNG_LIGHT"
      by (simp add: example_simps)
    show "(5, 6) = path_state_rng_2D example_externals True (rng example_state 3)
                (path_state example_state 3) PRNG_LIGHT_U"
      by (simp add: example_simps)
    show "2 = path_state_rng_light_termination example_externals True (rng example_state 3)
                (path_state example_state 3)"
      by (simp add: example_simps)
    show "light_sample example_externals True 5 5 6 (fetch_time example_types (sd example_state))
            (fetch_P example_types (sd example_state))
            (bounce example_types (path_state example_state 3)) = Some 5"
      by (simp add: example_simps)
    show "direct_emission example_externals True (sd example_state) (sd_DL_shadow example_state) 5
            (path_state example_state 3)
            (if OBJECT_MOTION (example_build False)
             then Some (fetch_time example_types (sd example_state)) else None) 2
          = Some ((5, 2), 2, True)"
      by (simp add: example_simps)
  qed
  then show ?thesis using run by (simp add: example_simps)
qed



text \<open>
  Claim C6. \<^verbatim>\<open>ADD_RAY_FLAG\<close> ORs the flag into the state of the slot: every bit set
  before is set afterwards, and no other slot changes.
\<close>

theorem add_ray_flag_keeps_flags:
  "ADD_RAY_FLAG rs i flag i = rs i OR flag \<and>
   (\<forall>n. bit (rs i) n \<longrightarrow> bit (ADD_RAY_FLAG rs i flag i) n) \<and>
   (\<forall>j. j \<noteq> i \<longrightarrow> ADD_RAY_FLAG rs i flag j = rs j)"
  by (simp add: ADD_RAY_FLAG_def bit_or_iff)

theorem add_ray_flag_keeps_flags_witness:
  "bit (ray_state example_state 3) 4 \<and>
   bit (ADD_RAY_FLAG (ray_state example_state) 3 (RAY_SHADOW_RAY_CAST_DL example_types) 3) 4 \<and>
   ADD_RAY_FLAG (ray_state example_state) 3 (RAY_SHADOW_RAY_CAST_DL example_types) 7 = 0"
proof -
  have b: "bit (ray_state example_state 3) 4"
    by (simp add: example_simps)
  have n: "(7::int) \<noteq> 3" by simp
  from add_ray_flag_keeps_flags [of "ray_state example_state" 3
      "RAY_SHADOW_RAY_CAST_DL example_types"] b n
  show ?thesis by (simp add: example_simps)
qed



text \<open>
  Claim C2. Unless the dispatched slot is active and the flag word of the shading data has
  \<^verbatim>\<open>SD_BSDF_HAS_EVAL\<close>, the thread is a no-op: the split state is returned as it was,
  the enqueue primitive is called, if at all, with the enqueue flag clear, and the result is
  the same whatever the sampling engine is (no domain work is done).
\<close>

theorem skipped_unless_active_and_evaluable:
  fixes s :: "('w::len word, 'rng, 'ps, 'sd, 'ray, 'ev) split_state"
  assumes "\<not> (IS_STATE kt (ray_state s) (queue_data s QUEUE_ACTIVE_AND_REGENERATED_RAYS t)
                 (RAY_ACTIVE kt) \<and>
               fetch_flag kt (sd s) AND SD_BSDF_HAS_EVAL kt \<noteq> 0)"
  shows "fst (kernel_direct_lighting b kt ext kg qs s t) = s \<and>
         snd (kernel_direct_lighting b kt ext kg qs s t) \<in>
           {None, Some (queue_data s QUEUE_ACTIVE_AND_REGENERATED_RAYS t,
                        QUEUE_SHADOW_RAY_CAST_DL_RAYS, False)} \<and>
         kernel_direct_lighting b kt ext' kg qs s t = kernel_direct_lighting b kt ext kg qs s t"
  using assms by (auto simp add: kernel_by_sample body_by_sample slot_sample_def Let_def)

theorem skipped_unless_active_and_evaluable_witness:
  "fst (kernel_direct_lighting (example_build False) example_types example_externals True 4
          example_state 2) = example_state \<and>
   snd (kernel_direct_lighting (example_build False) example_types example_externals True 4
          example_state 2) = Some (4, QUEUE_SHADOW_RAY_CAST_DL_RAYS, False) \<and>
   kernel_direct_lighting (example_build False) example_types eager_externals True 4
          example_state 2 =
   kernel_direct_lighting (example_build False) example_types example_externals True 4
          example_state 2"
proof -
  have inactive:
    "\<not> (IS_STATE example_types (ray_state example_state)
           (queue_data example_state QUEUE_ACTIVE_AND_REGENERATED_RAYS 2)
           (RAY_ACTIVE example_types) \<and>
         fetch_flag example_types (sd example_state) AND SD_BSDF_HAS_EVAL example_types \<noteq> 0)"
    by (simp add: example_simps IS_STATE_def)
  have call: "snd (kernel_direct_lighting (example_build False) example_types example_externals
                True 4 example_state 2) \<noteq> None"
    by (simp add: kernel_by_sample example_simps)
  from skipped_unless_active_and_evaluable [OF inactive, of "example_build False"
      example_externals True 4 eager_externals] call
  show ?thesis by (simp add: example_simps)
qed

text \<open>
  Claim C9. When \<^verbatim>\<open>kernel_data.integrator.use_direct_light\<close> is false the thread is a
  no-op as well, also for an active slot whose BSDF can be evaluated: no scratch write, no
  set enqueue flag, and a result that does not depend on the sampling engine.
\<close>

theorem no_direct_light_no_work:
  fixes s :: "('w::len word, 'rng, 'ps, 'sd, 'ray, 'ev) split_state"
  assumes "\<not> use_direct_light kt kg"
  shows "fst (kernel_direct_lighting b kt ext kg qs s t) = s \<and>
         snd (kernel_direct_lighting b kt ext kg qs s t) \<in>
           {None, Some (queue_data s QUEUE_ACTIVE_AND_REGENERATED_RAYS t,
                        QUEUE_SHADOW_RAY_CAST_DL_RAYS, False)} \<and>
         kernel_direct_lighting b kt ext' kg qs s t = kernel_direct_lighting b kt ext kg qs s t"
  using assms by (auto simp add: kernel_by_sample body_by_sample slot_sample_def Let_def)

theorem no_direct_light_no_work_witness:
  "IS_STATE example_types (ray_state example_state) 3 (RAY_ACTIVE example_types) \<and>
   fetch_flag example_types (sd example_state) AND SD_BSDF_HAS_EVAL example_types \<noteq> 0 \<and>
   fst (kernel_direct_lighting (example_build False) example_types example_externals False 4
          example_state 0) = example_state \<and>
   snd (kernel_direct_lighting (example_build False) example_types example_externals False 4
          example_state 0) = Some (3, QUEUE_SHADOW_RAY_CAST_DL_RAYS, False) \<and>
   kernel_direct_lighting (example_build False) example_types eager_externals False 4
          example_state 0 =
   kernel_direct_lighting (example_build False) example_types example_externals False 4
          example_state 0"
proof -
  have off: "\<not> use_direct_light example_types False"
    by (simp add: example_simps)
  have call: "snd (kernel_direct_lighting (example_build False) example_types example_externals
                False 4 example_state 0) \<noteq> None"
    by (simp add: kernel_by_sample example_simps)
  from no_direct_light_no_work [OF off, of "example_build False" example_externals 4
      example_state 0 eager_externals] call
  show ?thesis by (simp add: example_simps IS_STATE_def)
qed

text \<open>
  Claim C5. Two runs of a thread on the same slot, from split states that agree on the
  slot's RNG, on its path state and on the shading data (\<^verbatim>\<open>sd\<close> and the scratch
  \<^verbatim>\<open>sd_DL_shadow\<close> handed to \<^verbatim>\<open>direct_emission\<close>), the slot being active in both,
  take the same accept/reject decision, and on acceptance leave the same shadow ray, BSDF
  evaluation and lamp flag in the slot, whatever else the two states hold.
\<close>

theorem direct_lighting_deterministic:
  fixes s s' :: "('w::len word, 'rng, 'ps, 'sd, 'ray, 'ev) split_state"
  assumes slot: "queue_data s QUEUE_ACTIVE_AND_REGENERATED_RAYS t = i"
                "queue_data s' QUEUE_ACTIVE_AND_REGENERATED_RAYS t = i"
    and rng: "rng s i = rng s' i"
    and path: "path_state s i = path_state s' i"
    and shading: "sd s = sd s'" "sd_DL_shadow s = sd_DL_shadow s'"
    and active: "IS_STATE kt (ray_state s) i (RAY_ACTIVE kt)"
                "IS_STATE kt (ray_state s') i (RAY_ACTIVE kt)"
  shows "snd (kernel_direct_lighting b kt ext kg qs s t) =
           snd (kernel_direct_lighting b kt ext kg qs s' t) \<and>
         (snd (kernel_direct_lighting b kt ext kg qs s t) =
            Some (i, QUEUE_SHADOW_RAY_CAST_DL_RAYS, True) \<longrightarrow>
          light_ray (fst (kernel_direct_lighting b kt ext kg qs s t)) i =
            light_ray (fst (kernel_direct_lighting b kt ext kg qs s' t)) i \<and>
          bsdf_eval (fst (kernel_direct_lighting b kt ext kg qs s t)) i =
            bsdf_eval (fst (kernel_direct_lighting b kt ext kg qs s' t)) i \<and>
          is_lamp (fst (kernel_direct_lighting b kt ext kg qs s t)) i =
            is_lamp (fst (kernel_direct_lighting b kt ext kg qs s' t)) i)"
proof -
  have "slot_sample b kt ext kg s i = slot_sample b kt ext kg s' i"
    using rng path shading active by (simp add: slot_sample_def)
  then show ?thesis
    using slot by (auto simp add: kernel_by_sample body_by_sample Let_def split: option.splits)
qed

lemma example_state'_simps:
  "ray_state example_state' = (\<lambda>i. 2)(3 := 8)"
  "rng example_state' = (\<lambda>i. 9)(3 := 5)"
  "path_state example_state' = (\<lambda>i. 1)(3 := 2)"
  "sd example_state' = 3" "sd_DL_shadow example_state' = 0"
  "light_ray example_state' = (\<lambda>i. (7, 7))" "bsdf_eval example_state' = (\<lambda>i. 4)"
  "is_lamp example_state' = (\<lambda>i. True)"
  "queue_data example_state' = queue_data example_state"
  by (simp_all add: example_state'_def example_state_simps)

theorem direct_lighting_deterministic_witness:
  "snd (kernel_direct_lighting (example_build False) example_types example_externals True 4
          example_state' 0) = Some (3, QUEUE_SHADOW_RAY_CAST_DL_RAYS, True) \<and>
   light_ray (fst (kernel_direct_lighting (example_build False) example_types
                     example_externals True 4 example_state 0)) 3 =
   light_ray (fst (kernel_direct_lighting (example_build False) example_types
                     example_externals True 4 example_state' 0)) 3 \<and>
   bsdf_eval (fst (kernel_direct_lighting (example_build False) example_types
                     example_externals True 4 example_state 0)) 3 =
   bsdf_eval (fst (kernel_direct_lighting (example_build False) example_types
                     example_externals True 4 example_state' 0)) 3 \<and>
   is_lamp (fst (kernel_direct_lighting (example_build False) example_types
                     example_externals True 4 example_state 0)) 3 =
   is_lamp (fst (kernel_direct_lighting (example_build False) example_types
                     example_externals True 4 example_state' 0)) 3 \<and>
   light_ray example_state 3 \<noteq> light_ray example_state' 3"
proof -
  have accept: "snd (kernel_direct_lighting (example_build False) example_types
                  example_externals True 4 example_state 0) =
                Some (3, QUEUE_SHADOW_RAY_CAST_DL_RAYS, True)"
    by (simp add: kernel_by_sample slot_sample_def sample_direct_light_def IS_STATE_def
        example_simps)
  have "queue_data example_state QUEUE_ACTIVE_AND_REGENERATED_RAYS 0 = 3"
    and "queue_data example_state' QUEUE_ACTIVE_AND_REGENERATED_RAYS 0 = 3"
    and "rng example_state 3 = rng example_state' 3"
    and "path_state example_state 3 = path_state example_state' 3"
    and "sd example_state = sd example_state'"
    and "sd_DL_shadow example_state = sd_DL_shadow example_state'"
    and "IS_STATE example_types (ray_state example_state) 3 (RAY_ACTIVE example_types)"
    and "IS_STATE example_types (ray_state example_state') 3 (RAY_ACTIVE example_types)"
    by (simp_all add: example_simps example_state'_simps IS_STATE_def)
  from direct_lighting_deterministic [OF this, of "example_build False" example_externals
      True 4] accept
  show ?thesis by (simp add: example_simps example_state'_simps)
qed

section \<open>Properties of a round\<close>

declare stage_locally_def [simp] reserve_region_def [simp] copy_entry_def [simp]

lemma round_inv_launched:
  assumes "launched \<sigma>"
  shows "round_inv d (mem \<sigma>) (queue_index \<sigma>) \<sigma>"
  using assms
  by (auto simp add: round_inv_def launched_def inv_frame_def inv_slots_def touched_def
      started_def slot_eq_def inv_phase_def inv_local_def inv_reserved_def inv_regions_def
      inv_queue_def inv_groups_def inv_call_def)

lemma inv_groups_leader:
  "inv_groups d \<sigma> \<Longrightarrow> reserved \<sigma> g \<Longrightarrow>
   EMISSION (build d) \<and>
   (\<exists>t < global_size d. group_id d t = g \<and> local_id d t = 0 \<and> phase \<sigma> t = Arrived)"
  by (simp add: inv_groups_def)

lemma inv_groups_keep:
  assumes "inv_groups d \<sigma>" and "reserved \<sigma>' = reserved \<sigma>"
    and "\<And>u. phase \<sigma> u = Arrived \<Longrightarrow> phase \<sigma>' u = Arrived"
  shows "inv_groups d \<sigma>'"
  unfolding inv_groups_def
proof (intro allI impI)
  fix g assume "reserved \<sigma>' g"
  then have "reserved \<sigma> g" by (simp add: assms(2))
  from inv_groups_leader[OF assms(1) this] assms(3)
  show "EMISSION (build d) \<and>
        (\<exists>t < global_size d. group_id d t = g \<and> local_id d t = 0 \<and> phase \<sigma>' t = Arrived)"
    by blast
qed

lemma enters_iff:
  "enters d m t \<longleftrightarrow>
     EMISSION (build d) \<and>
     \<not> (COMPUTE_DEVICE_GPU (build d) \<and>
        queue_data m QUEUE_ACTIVE_AND_REGENERATED_RAYS t = QUEUE_EMPTY_SLOT (types d))"
  by (auto simp add: enters_def kernel_by_sample Let_def)

lemma inv_call_exited: "inv_call d m \<sigma> \<Longrightarrow> phase \<sigma> t = Exited \<Longrightarrow> \<not> enters d m t"
  by (simp add: inv_call_def)


lemma inv_call_keep:
  assumes "inv_call d m \<sigma>"
    and "\<And>u. phase \<sigma>' u = Exited \<Longrightarrow> phase \<sigma> u = Exited"
    and "\<And>u. phase \<sigma>' u = Arrived \<or> (\<exists>r f. phase \<sigma>' u = Pending r f) \<Longrightarrow>
              phase \<sigma> u = Arrived \<or> (\<exists>r f. phase \<sigma> u = Pending r f)"
  shows "inv_call d m \<sigma>'"
  unfolding inv_call_def
proof (intro allI conjI impI)
  fix t assume "phase \<sigma>' t = Exited"
  then have "phase \<sigma> t = Exited" by (rule assms(2))
  with assms(1) show "\<not> enters d m t" by (simp add: inv_call_def)
next
  fix t assume "phase \<sigma>' t = Arrived \<or> (\<exists>r f. phase \<sigma>' t = Pending r f)"
  then have "phase \<sigma> t = Arrived \<or> (\<exists>r f. phase \<sigma> t = Pending r f)" by (rule assms(3))
  with assms(1) show "enters d m t" by (auto simp add: inv_call_def)
qed

lemma inv_reserved_phase:
  "inv_reserved d \<sigma> \<Longrightarrow> reserved \<sigma> (group_id d t) \<Longrightarrow> t < global_size d \<Longrightarrow>
   phase \<sigma> t = Arrived \<or> phase \<sigma> t = Exited"
  by (simp add: inv_reserved_def)

lemma inv_reserved_copied:
  "inv_reserved d \<sigma> \<Longrightarrow> k \<in> copied \<sigma> g \<Longrightarrow> reserved \<sigma> g \<and> k < local_queue_atomics \<sigma> g"
  by (simp add: inv_reserved_def)

lemma inv_phase_pending:
  "inv_phase d m \<sigma> \<Longrightarrow> phase \<sigma> t = Pending r f \<Longrightarrow>
   t < global_size d \<and> r = dispatched_slot d m t \<and> f = accepts d m t"
  by (simp add: inv_phase_def)

lemma inv_phase_exited:
  "inv_phase d m \<sigma> \<Longrightarrow> phase \<sigma> t = Exited \<Longrightarrow> \<not> accepts d m t"
  by (simp add: inv_phase_def)

lemma inv_phase_barrier:
  "inv_phase d m \<sigma> \<Longrightarrow> started \<sigma> t \<Longrightarrow> u < global_size d \<Longrightarrow>
   group_id d u = group_id d t \<Longrightarrow> phase \<sigma> u \<noteq> Entry"
  by (simp add: inv_phase_def)

lemma inv_slots_at:
  "inv_slots d m \<sigma> \<Longrightarrow>
   slot_eq (mem \<sigma>)
     (if touched d m \<sigma> i
      then fst (direct_lighting_body (build d) (types d) (engine d) (globals d) m i)
      else m) i"
  by (simp add: inv_slots_def)

lemma step_Enter:
  assumes "step d (Enter t) \<sigma> = Some \<sigma>'"
  shows "t < global_size d" "phase \<sigma> t = Entry"
    "\<sigma>' = \<sigma>\<lparr>local_queue_atomics :=
                  (if local_id d t = 0 then (local_queue_atomics \<sigma>)(group_id d t := 0)
                   else local_queue_atomics \<sigma>),
                phase := (phase \<sigma>)(t := AtBarrier)\<rparr>"
  using assms by (auto split: if_splits)

lemma enter_preserves:
  assumes inv: "round_inv d m q0 \<sigma>" and st: "step d (Enter t) \<sigma> = Some \<sigma>'"
  shows "round_inv d m q0 \<sigma>'"
proof -
  note e = step_Enter[OF st]
  from inv have fr: "inv_frame m q0 \<sigma>" and sl: "inv_slots d m \<sigma>" and ph: "inv_phase d m \<sigma>"
    and lo: "inv_local d m \<sigma>" and re: "inv_reserved d \<sigma>" and rg: "inv_regions q0 \<sigma>"
    and qu: "inv_queue m \<sigma>" and gr: "inv_groups d \<sigma>" and ca: "inv_call d m \<sigma>"
    by (simp_all add: round_inv_def)
  have f: "mem \<sigma>' = mem \<sigma>" "queue_index \<sigma>' = queue_index \<sigma>" "staging \<sigma>' = staging \<sigma>"
    "reserved \<sigma>' = reserved \<sigma>" "region \<sigma>' = region \<sigma>" "copied \<sigma>' = copied \<sigma>"
    and f_ph: "phase \<sigma>' = (phase \<sigma>)(t := AtBarrier)"
    and f_lqa: "local_queue_atomics \<sigma>' =
                  (if local_id d t = 0 then (local_queue_atomics \<sigma>)(group_id d t := 0)
                   else local_queue_atomics \<sigma>)"
    using e(3) by simp_all
  have started_eq: "started \<sigma>' u = started \<sigma> u" for u
    using e(2) by (simp add: started_def f_ph)
  have touched_eq: "touched d m \<sigma>' i = touched d m \<sigma> i" for i
    by (simp add: touched_def started_eq)
  have unres: "\<not> reserved \<sigma> (group_id d t)"
    using inv_reserved_phase[OF re _ e(1)] e(2) by auto
  have lqa_res: "reserved \<sigma> g \<Longrightarrow> local_queue_atomics \<sigma>' g = local_queue_atomics \<sigma> g" for g
    using unres by (auto simp add: f_lqa)
  have quiet: "\<not> started \<sigma> u" if "u < global_size d" "group_id d u = group_id d t" for u
    using inv_phase_barrier[OF ph _ e(1), of u] e(2) that by auto
  have 1: "inv_frame m q0 \<sigma>'"
    using fr by (simp add: inv_frame_def f)
  have 2: "inv_slots d m \<sigma>'"
    using sl by (simp add: inv_slots_def touched_eq f)
  have 3: "inv_phase d m \<sigma>'"
    unfolding inv_phase_def
  proof (intro allI conjI impI)
    fix u r f assume "phase \<sigma>' u = Pending r f"
    then have "phase \<sigma> u = Pending r f" by (auto simp add: f_ph split: if_splits)
    then show "u < global_size d" "r = dispatched_slot d m u" "f = accepts d m u"
      using inv_phase_pending[OF ph] by auto
  next
    fix u assume "phase \<sigma>' u = Exited"
    then have "phase \<sigma> u = Exited" by (auto simp add: f_ph split: if_splits)
    then show "\<not> accepts d m u" using inv_phase_exited[OF ph] by auto
  next
    fix u v assume "started \<sigma>' u" "v < global_size d" "group_id d v = group_id d u"
    then have "phase \<sigma> v \<noteq> Entry" using inv_phase_barrier[OF ph] by (auto simp add: started_eq)
    then show "phase \<sigma>' v \<noteq> Entry" by (simp add: f_ph)
  qed
  have 4: "inv_local d m \<sigma>'"
    unfolding inv_local_def
  proof (intro allI impI)
    fix g
    assume led: "\<exists>u<global_size d. group_id d u = g \<and> local_id d u = 0 \<and> phase \<sigma>' u \<noteq> Entry"
    have arr: "phase \<sigma>' u = Arrived \<longleftrightarrow> phase \<sigma> u = Arrived" for u
      using e(2) by (auto simp add: f_ph)
    show "inj_on (staging \<sigma>' g) {0..<local_queue_atomics \<sigma>' g} \<and>
          staging \<sigma>' g ` {0..<local_queue_atomics \<sigma>' g} =
          dispatched_slot d m `
            {t. t < global_size d \<and> group_id d t = g \<and> phase \<sigma>' t = Arrived \<and> accepts d m t}"
    proof (cases "g = group_id d t \<and> local_id d t = 0")
      case True
      then have z: "local_queue_atomics \<sigma>' g = 0" by (simp add: f_lqa)
      have "{u. u < global_size d \<and> group_id d u = g \<and> phase \<sigma>' u = Arrived \<and> accepts d m u} = {}"
        using quiet True by (force simp add: arr started_def)
      then show ?thesis using z by simp
    next
      case False
      then have same: "local_queue_atomics \<sigma>' g = local_queue_atomics \<sigma> g"
        by (auto simp add: f_lqa)
      from led False have "\<exists>u<global_size d. group_id d u = g \<and> local_id d u = 0 \<and> phase \<sigma> u \<noteq> Entry"
        by (auto simp add: f_ph split: if_splits)
      with lo show ?thesis
        unfolding inv_local_def same f arr by blast
    qed
  qed
  have 5: "inv_reserved d \<sigma>'"
    unfolding inv_reserved_def
  proof (intro allI conjI impI ballI)
    fix g u assume "reserved \<sigma>' g" "u < global_size d" "group_id d u = g"
    then have "phase \<sigma> u = Arrived \<or> phase \<sigma> u = Exited"
      using inv_reserved_phase[OF re, of u] by (auto simp add: f)
    then show "phase \<sigma>' u = Arrived \<or> phase \<sigma>' u = Exited"
      using e(2) by (auto simp add: f_ph)
  next
    fix g k assume "k \<in> copied \<sigma>' g"
    then have k: "reserved \<sigma> g" "k < local_queue_atomics \<sigma> g"
      using inv_reserved_copied[OF re] by (auto simp add: f)
    then show "reserved \<sigma>' g" by (simp add: f)
    from k show "k < local_queue_atomics \<sigma>' g" using lqa_res by simp
  qed
  have blk: "reserved \<sigma> g \<Longrightarrow> block \<sigma>' g = block \<sigma> g" for g
    using lqa_res[of g] by (simp add: block_def f)
  have 6: "inv_regions q0 \<sigma>'"
  proof -
    have "(\<Union>g \<in> {g. reserved \<sigma>' g}. block \<sigma>' g) = (\<Union>g \<in> {g. reserved \<sigma> g}. block \<sigma> g)"
      using blk by (auto simp add: f)
    then show ?thesis using rg blk by (simp add: inv_regions_def f)
  qed
  have 7: "inv_queue m \<sigma>'"
    using qu by (simp add: inv_queue_def f)
  have 8: "inv_groups d \<sigma>'"
    by (rule inv_groups_keep[OF gr f(4)]) (use e(2) in \<open>auto simp add: f_ph\<close>)
  have 9: "inv_call d m \<sigma>'"
    by (rule inv_call_keep[OF ca]) (auto simp add: f_ph split: if_splits)
  from 1 2 3 4 5 6 7 8 9 show ?thesis by (simp add: round_inv_def)
qed

lemma body_frame:
  "rng (fst (direct_lighting_body b kt ext kg m i)) = rng m"
  "path_state (fst (direct_lighting_body b kt ext kg m i)) = path_state m"
  "sd (fst (direct_lighting_body b kt ext kg m i)) = sd m"
  "sd_DL_shadow (fst (direct_lighting_body b kt ext kg m i)) = sd_DL_shadow m"
  "queue_data (fst (direct_lighting_body b kt ext kg m i)) = queue_data m"
  by (simp_all add: body_by_sample split: option.splits)

lemma body_other_slot:
  "j \<noteq> i \<Longrightarrow> slot_eq (fst (direct_lighting_body b kt ext kg m i)) m j"
  by (simp add: body_by_sample slot_eq_def ADD_RAY_FLAG_def split: option.splits)

lemma sample_local:
  assumes "ray_state m i = ray_state m0 i" "rng m = rng m0" "path_state m = path_state m0"
    "sd m = sd m0" "sd_DL_shadow m = sd_DL_shadow m0"
  shows "slot_sample b kt ext kg m i = slot_sample b kt ext kg m0 i"
  using assms by (simp add: slot_sample_def IS_STATE_def)

lemma body_local:
  assumes "slot_eq m m0 i" "rng m = rng m0" "path_state m = path_state m0"
    "sd m = sd m0" "sd_DL_shadow m = sd_DL_shadow m0"
  shows "slot_eq (fst (direct_lighting_body b kt ext kg m i))
           (fst (direct_lighting_body b kt ext kg m0 i)) i"
proof -
  have "slot_sample b kt ext kg m i = slot_sample b kt ext kg m0 i"
    using assms by (intro sample_local) (simp_all add: slot_eq_def)
  then show ?thesis
    using assms(1)
    by (simp add: body_by_sample slot_eq_def ADD_RAY_FLAG_def split: option.splits)
qed

lemma body_rejected:
  "slot_sample b kt ext kg m i = None \<Longrightarrow> direct_lighting_body b kt ext kg m i = (m, False)"
  by (simp add: body_by_sample)

lemma step_Compute:
  assumes "step d (Compute t) \<sigma> = Some \<sigma>'"
  shows "t < global_size d" "phase \<sigma> t = AtBarrier"
    "\<And>u. u < global_size d \<Longrightarrow> group_id d u = group_id d t \<Longrightarrow> phase \<sigma> u \<noteq> Entry"
    "\<sigma>' = \<sigma>\<lparr>mem := fst (kernel_direct_lighting (build d) (types d) (engine d) (globals d)
                          (queue_size d) (mem \<sigma>) t),
                phase := (phase \<sigma>)(t :=
                  (case snd (kernel_direct_lighting (build d) (types d) (engine d) (globals d)
                          (queue_size d) (mem \<sigma>) t) of
                     None \<Rightarrow> Exited | Some (r, q, f) \<Rightarrow> Pending r f))\<rparr>"
  using assms by (auto split: if_splits prod.splits)

lemma compute_preserves:
  fixes d :: "('w::len word, 'kg, 'rng, 'ps, 'sd, 'ls, 'ray, 'ev) dispatch"
  assumes inv: "round_inv d m q0 \<sigma>" and st: "step d (Compute t) \<sigma> = Some \<sigma>'"
    and dist: "distinct_slots d m"
  shows "round_inv d m q0 \<sigma>'"
proof -
  note e = step_Compute[OF st]
  from inv have fr: "inv_frame m q0 \<sigma>" and sl: "inv_slots d m \<sigma>" and ph: "inv_phase d m \<sigma>"
    and lo: "inv_local d m \<sigma>" and re: "inv_reserved d \<sigma>" and rg: "inv_regions q0 \<sigma>"
    and qu: "inv_queue m \<sigma>" and gr: "inv_groups d \<sigma>" and ca: "inv_call d m \<sigma>"
    by (simp_all add: round_inv_def)
  define r where "r = dispatched_slot d m t"
  define K where "K = kernel_direct_lighting (build d) (types d) (engine d) (globals d)
                          (queue_size d) (mem \<sigma>) t"
  define p' where "p' = (case snd K of None \<Rightarrow> Exited | Some (r, q, f) \<Rightarrow> Pending r f)"
  have f: "queue_index \<sigma>' = queue_index \<sigma>" "staging \<sigma>' = staging \<sigma>"
    "reserved \<sigma>' = reserved \<sigma>" "region \<sigma>' = region \<sigma>" "copied \<sigma>' = copied \<sigma>"
    "local_queue_atomics \<sigma>' = local_queue_atomics \<sigma>"
    and f_ph: "phase \<sigma>' = (phase \<sigma>)(t := p')"
    and f_mem: "mem \<sigma>' = fst K"
    using e(4) by (simp_all add: K_def p'_def)
  have frm: "rng (mem \<sigma>) = rng m" "path_state (mem \<sigma>) = path_state m" "sd (mem \<sigma>) = sd m"
    "sd_DL_shadow (mem \<sigma>) = sd_DL_shadow m"
    "queue_data (mem \<sigma>) QUEUE_ACTIVE_AND_REGENERATED_RAYS =
       queue_data m QUEUE_ACTIVE_AND_REGENERATED_RAYS"
    using fr by (simp_all add: inv_frame_def)
  have r_cur: "queue_data (mem \<sigma>) QUEUE_ACTIVE_AND_REGENERATED_RAYS t = r"
    by (simp add: r_def dispatched_slot_def get_ray_index_def frm)
  have not_started: "\<not> started \<sigma> t" using e(2) by (simp add: started_def)
  have untouched: "\<not> touched d m \<sigma> r"
  proof
    assume "touched d m \<sigma> r"
    then obtain u where u: "r \<noteq> QUEUE_EMPTY_SLOT (types d)" "u < global_size d"
      "dispatched_slot d m u = r" "started \<sigma> u"
      by (auto simp add: touched_def)
    with dist e(1) have "u = t"
      by (auto simp add: distinct_slots_def r_def)
    with u(4) not_started show False by simp
  qed
  have cur_slot: "slot_eq (mem \<sigma>) m r"
    using inv_slots_at[OF sl, of r] untouched by simp
  have sample_eq: "slot_sample (build d) (types d) (engine d) (globals d) (mem \<sigma>) r =
                   slot_sample (build d) (types d) (engine d) (globals d) m r"
    using cur_slot frm by (intro sample_local) (simp_all add: slot_eq_def)
  have K_fst: "fst K = (if r = QUEUE_EMPTY_SLOT (types d) then mem \<sigma>
                        else fst (direct_lighting_body (build d) (types d) (engine d)
                                    (globals d) (mem \<sigma>) r))"
    by (simp add: K_def kernel_by_sample r_cur Let_def)
  have K_snd: "snd K = (if r = QUEUE_EMPTY_SLOT (types d)
                        then (if EMISSION (build d) \<and> \<not> COMPUTE_DEVICE_GPU (build d)
                              then Some (r, QUEUE_SHADOW_RAY_CAST_DL_RAYS, False) else None)
                        else (if EMISSION (build d)
                              then Some (r, QUEUE_SHADOW_RAY_CAST_DL_RAYS, accepts d m t)
                              else None))"
    by (simp add: K_def kernel_by_sample r_cur Let_def sample_eq accepts_def r_def[symmetric])
  have no_emission: "\<not> EMISSION (build d) \<Longrightarrow> \<not> accepts d m t"
    by (simp add: accepts_def slot_sample_def)
  have empty: "r = QUEUE_EMPTY_SLOT (types d) \<Longrightarrow> \<not> accepts d m t"
    by (simp add: accepts_def r_def)
  have p'_cases: "p' = Exited \<and> \<not> accepts d m t \<or> p' = Pending r (accepts d m t)"
    using no_emission empty by (auto simp add: p'_def K_snd)
  have started': "started \<sigma>' u \<longleftrightarrow> started \<sigma> u \<or> u = t" for u
    using p'_cases by (auto simp add: started_def f_ph)
  have touched': "touched d m \<sigma>' i \<longleftrightarrow>
                    touched d m \<sigma> i \<or> (i = r \<and> r \<noteq> QUEUE_EMPTY_SLOT (types d))" for i
    using e(1) by (auto simp add: touched_def started' r_def)
  have fst_frame: "rng (fst K) = rng (mem \<sigma>)" "path_state (fst K) = path_state (mem \<sigma>)"
    "sd (fst K) = sd (mem \<sigma>)" "sd_DL_shadow (fst K) = sd_DL_shadow (mem \<sigma>)"
    "queue_data (fst K) = queue_data (mem \<sigma>)"
    by (simp_all add: K_fst body_frame)
  have 1: "inv_frame m q0 \<sigma>'"
    using fr by (simp add: inv_frame_def f f_mem fst_frame)
  have 2: "inv_slots d m \<sigma>'"
    unfolding inv_slots_def
  proof
    fix i
    show "slot_eq (mem \<sigma>')
            (if touched d m \<sigma>' i
             then fst (direct_lighting_body (build d) (types d) (engine d) (globals d) m i)
             else m) i"
    proof (cases "i = r \<and> r \<noteq> QUEUE_EMPTY_SLOT (types d)")
      case True
      then have "slot_eq (fst K)
                   (fst (direct_lighting_body (build d) (types d) (engine d) (globals d) m r)) r"
        using body_local[OF cur_slot frm(1-4)] by (simp add: K_fst)
      with True show ?thesis by (simp add: touched' f_mem)
    next
      case False
      have "slot_eq (fst K) (mem \<sigma>) i"
      proof (cases "r = QUEUE_EMPTY_SLOT (types d)")
        case True
        then show ?thesis by (simp add: K_fst slot_eq_def)
      next
        case nonempty: False
        with False have "i \<noteq> r" by simp
        then show ?thesis using nonempty by (simp add: K_fst body_other_slot)
      qed
      moreover have "touched d m \<sigma>' i = touched d m \<sigma> i"
        using False by (auto simp add: touched')
      moreover have "slot_eq (mem \<sigma>)
            (if touched d m \<sigma> i
             then fst (direct_lighting_body (build d) (types d) (engine d) (globals d) m i)
             else m) i"
        by (rule inv_slots_at[OF sl])
      ultimately show ?thesis by (simp add: f_mem slot_eq_def)
    qed
  qed
  have 3: "inv_phase d m \<sigma>'"
    unfolding inv_phase_def
  proof (intro allI conjI impI)
    fix u r' f' assume a: "phase \<sigma>' u = Pending r' f'"
    show "u < global_size d" "r' = dispatched_slot d m u" "f' = accepts d m u"
      using a p'_cases e(1) inv_phase_pending[OF ph, of u r' f']
      by (auto simp add: f_ph r_def split: if_splits)
  next
    fix u assume a: "phase \<sigma>' u = Exited"
    show "\<not> accepts d m u"
      using a p'_cases inv_phase_exited[OF ph, of u]
      by (auto simp add: f_ph split: if_splits)
  next
    fix u v assume a: "started \<sigma>' u" "v < global_size d" "group_id d v = group_id d u"
    have "phase \<sigma> v \<noteq> Entry"
    proof (cases "u = t")
      case True then show ?thesis using e(3) a by simp
    next
      case False then show ?thesis using inv_phase_barrier[OF ph _ a(2,3)] a(1)
        by (simp add: started')
    qed
    then show "phase \<sigma>' v \<noteq> Entry"
      using p'_cases by (auto simp add: f_ph)
  qed
  have arr: "phase \<sigma>' u = Arrived \<longleftrightarrow> phase \<sigma> u = Arrived" for u
    using e(2) p'_cases by (auto simp add: f_ph)
  have ent: "phase \<sigma>' u \<noteq> Entry \<longleftrightarrow> phase \<sigma> u \<noteq> Entry" for u
    using e(2) p'_cases by (auto simp add: f_ph)
  have 4: "inv_local d m \<sigma>'"
    using lo unfolding inv_local_def f arr ent by simp
  have 5: "inv_reserved d \<sigma>'"
    unfolding inv_reserved_def
  proof (intro allI conjI impI ballI)
    fix g u assume a: "reserved \<sigma>' g" "u < global_size d" "group_id d u = g"
    then have b: "phase \<sigma> u = Arrived \<or> phase \<sigma> u = Exited"
      using inv_reserved_phase[OF re, of u] by (auto simp add: f)
    then have "u \<noteq> t" using e(2) by auto
    then show "phase \<sigma>' u = Arrived \<or> phase \<sigma>' u = Exited"
      using b by (simp add: f_ph)
  next
    fix g k assume "k \<in> copied \<sigma>' g"
    then show "reserved \<sigma>' g" "k < local_queue_atomics \<sigma>' g"
      using inv_reserved_copied[OF re, of k g] by (auto simp add: f)
  qed
  have 6: "inv_regions q0 \<sigma>'"
    using rg by (simp add: inv_regions_def block_def f)
  have 7: "inv_queue m \<sigma>'"
    using qu by (simp add: inv_queue_def f f_mem fst_frame)
  have 8: "inv_groups d \<sigma>'"
    by (rule inv_groups_keep[OF gr f(3)]) (use e(2) in \<open>auto simp add: f_ph\<close>)
  have ent_t: "enters d m t \<longleftrightarrow> snd K \<noteq> None"
    by (auto simp add: enters_iff K_snd r_def dispatched_slot_def get_ray_index_def)
  have p'_exit: "p' = Exited \<longleftrightarrow> snd K = None"
    by (auto simp add: p'_def split: option.splits)
  have 9: "inv_call d m \<sigma>'"
    unfolding inv_call_def
  proof (intro allI conjI impI)
    fix u assume a: "phase \<sigma>' u = Exited"
    show "\<not> enters d m u"
    proof (cases "u = t")
      case True
      with a have "p' = Exited" by (simp add: f_ph)
      then show ?thesis using True by (simp add: ent_t p'_exit)
    next
      case False
      with a have "phase \<sigma> u = Exited" by (simp add: f_ph)
      then show ?thesis by (rule inv_call_exited[OF ca])
    qed
  next
    fix u assume a: "phase \<sigma>' u = Arrived \<or> (\<exists>r f. phase \<sigma>' u = Pending r f)"
    show "enters d m u"
    proof (cases "u = t")
      case True
      with a have "p' \<noteq> Exited" by (auto simp add: f_ph)
      then show ?thesis using True by (simp add: ent_t p'_exit)
    next
      case False
      with a have "phase \<sigma> u = Arrived \<or> (\<exists>r f. phase \<sigma> u = Pending r f)"
        by (simp add: f_ph)
      with ca show ?thesis by (auto simp add: inv_call_def)
    qed
  qed
  from 1 2 3 4 5 6 7 8 9 show ?thesis by (simp add: round_inv_def)
qed

lemma step_LocalStage:
  assumes "step d (LocalStage t) \<sigma> = Some \<sigma>'"
  obtains r f where "phase \<sigma> t = Pending r f"
    "\<sigma>' = \<sigma>\<lparr>local_queue_atomics := (local_queue_atomics \<sigma>)(group_id d t :=
                    fst (enqueue_claim (local_queue_atomics \<sigma> (group_id d t))
                           (staging \<sigma> (group_id d t)) r f)),
                staging := (staging \<sigma>)(group_id d t :=
                    snd (enqueue_claim (local_queue_atomics \<sigma> (group_id d t))
                           (staging \<sigma> (group_id d t)) r f)),
                phase := (phase \<sigma>)(t := Arrived)\<rparr>"
  using assms by (auto split: phase.splits prod.splits)

lemma local_stage_preserves:
  fixes d :: "('w::len word, 'kg, 'rng, 'ps, 'sd, 'ls, 'ray, 'ev) dispatch"
  assumes inv: "round_inv d m q0 \<sigma>" and st: "step d (LocalStage t) \<sigma> = Some \<sigma>'"
    and dist: "distinct_slots d m"
  shows "round_inv d m q0 \<sigma>'"
proof -
  from inv have fr: "inv_frame m q0 \<sigma>" and sl: "inv_slots d m \<sigma>" and ph: "inv_phase d m \<sigma>"
    and lo: "inv_local d m \<sigma>" and re: "inv_reserved d \<sigma>" and rg: "inv_regions q0 \<sigma>"
    and qu: "inv_queue m \<sigma>" and gr: "inv_groups d \<sigma>" and ca: "inv_call d m \<sigma>"
    by (simp_all add: round_inv_def)
  from st obtain r f where pend: "phase \<sigma> t = Pending r f"
    and \<sigma>': "\<sigma>' = \<sigma>\<lparr>local_queue_atomics := (local_queue_atomics \<sigma>)(group_id d t :=
                    fst (enqueue_claim (local_queue_atomics \<sigma> (group_id d t))
                           (staging \<sigma> (group_id d t)) r f)),
                staging := (staging \<sigma>)(group_id d t :=
                    snd (enqueue_claim (local_queue_atomics \<sigma> (group_id d t))
                           (staging \<sigma> (group_id d t)) r f)),
                phase := (phase \<sigma>)(t := Arrived)\<rparr>"
    by (rule step_LocalStage)
  define G where "G = group_id d t"
  define n where "n = local_queue_atomics \<sigma> G"
  from inv_phase_pending[OF ph pend]
  have t: "t < global_size d" and r: "r = dispatched_slot d m t" and fl: "f = accepts d m t"
    by simp_all
  have f: "mem \<sigma>' = mem \<sigma>" "queue_index \<sigma>' = queue_index \<sigma>"
    "reserved \<sigma>' = reserved \<sigma>" "region \<sigma>' = region \<sigma>" "copied \<sigma>' = copied \<sigma>"
    and f_ph: "phase \<sigma>' = (phase \<sigma>)(t := Arrived)"
    and f_lqa: "local_queue_atomics \<sigma>' =
                  (local_queue_atomics \<sigma>)(G := if f then n + 1 else n)"
    and f_stg: "staging \<sigma>' = (staging \<sigma>)(G := if f then (staging \<sigma> G)(n := r) else staging \<sigma> G)"
    unfolding \<sigma>' G_def n_def by (simp_all add: enqueue_claim_def)
  have started_eq: "started \<sigma>' u = started \<sigma> u" for u
    using pend by (simp add: started_def f_ph)
  have touched_eq: "touched d m \<sigma>' i = touched d m \<sigma> i" for i
    by (simp add: touched_def started_eq)
  have ent: "phase \<sigma>' u \<noteq> Entry \<longleftrightarrow> phase \<sigma> u \<noteq> Entry" for u
    using pend by (auto simp add: f_ph)
  have unres: "\<not> reserved \<sigma> G"
    using inv_reserved_phase[OF re _ t] pend by (auto simp add: G_def)
  have lqa_res: "reserved \<sigma> g \<Longrightarrow> local_queue_atomics \<sigma>' g = local_queue_atomics \<sigma> g" for g
    using unres by (auto simp add: f_lqa)
  have 1: "inv_frame m q0 \<sigma>'"
    using fr by (simp add: inv_frame_def f)
  have 2: "inv_slots d m \<sigma>'"
    using sl by (simp add: inv_slots_def touched_eq f)
  have 3: "inv_phase d m \<sigma>'"
    unfolding inv_phase_def
  proof (intro allI conjI impI)
    fix u r' f' assume "phase \<sigma>' u = Pending r' f'"
    then have "phase \<sigma> u = Pending r' f'" by (auto simp add: f_ph split: if_splits)
    then show "u < global_size d" "r' = dispatched_slot d m u" "f' = accepts d m u"
      using inv_phase_pending[OF ph] by auto
  next
    fix u assume "phase \<sigma>' u = Exited"
    then have "phase \<sigma> u = Exited" by (auto simp add: f_ph split: if_splits)
    then show "\<not> accepts d m u" using inv_phase_exited[OF ph] by auto
  next
    fix u v assume "started \<sigma>' u" "v < global_size d" "group_id d v = group_id d u"
    then have "phase \<sigma> v \<noteq> Entry" using inv_phase_barrier[OF ph] by (auto simp add: started_eq)
    then show "phase \<sigma>' v \<noteq> Entry" by (simp add: ent)
  qed
  have 4: "inv_local d m \<sigma>'"
    unfolding inv_local_def
  proof (intro allI impI)
    fix g
    assume "\<exists>u<global_size d. group_id d u = g \<and> local_id d u = 0 \<and> phase \<sigma>' u \<noteq> Entry"
    then have "\<exists>u<global_size d. group_id d u = g \<and> local_id d u = 0 \<and> phase \<sigma> u \<noteq> Entry"
      by (simp add: ent)
    with lo have old: "inj_on (staging \<sigma> g) {0..<local_queue_atomics \<sigma> g}"
      "staging \<sigma> g ` {0..<local_queue_atomics \<sigma> g} =
         dispatched_slot d m `
           {u. u < global_size d \<and> group_id d u = g \<and> phase \<sigma> u = Arrived \<and> accepts d m u}"
      unfolding inv_local_def by blast+
    let ?old = "{u. u < global_size d \<and> group_id d u = g \<and> phase \<sigma> u = Arrived \<and> accepts d m u}"
    let ?new = "{u. u < global_size d \<and> group_id d u = g \<and> phase \<sigma>' u = Arrived \<and> accepts d m u}"
    show "inj_on (staging \<sigma>' g) {0..<local_queue_atomics \<sigma>' g} \<and>
          staging \<sigma>' g ` {0..<local_queue_atomics \<sigma>' g} = dispatched_slot d m ` ?new"
    proof (cases "g = G \<and> f")
      case True
      then have acc: "accepts d m t" using fl by simp
      have new: "?new = insert t ?old"
        using True acc t pend by (auto simp add: f_ph G_def)
      have fresh: "r \<notin> dispatched_slot d m ` ?old"
      proof
        assume "r \<in> dispatched_slot d m ` ?old"
        then obtain u where u: "u < global_size d" "phase \<sigma> u = Arrived"
          "dispatched_slot d m u = r" by auto
        from acc have "r \<noteq> QUEUE_EMPTY_SLOT (types d)" by (simp add: accepts_def r)
        with dist u t have "u = t" by (auto simp add: distinct_slots_def r)
        with u(2) pend show False by simp
      qed
      have cnt: "local_queue_atomics \<sigma>' g = Suc n" and buf: "staging \<sigma>' g = (staging \<sigma> G)(n := r)"
        using True by (simp_all add: f_lqa f_stg)
      have oldG: "inj_on (staging \<sigma> G) {0..<n}"
        "staging \<sigma> G ` {0..<n} = dispatched_slot d m ` ?old"
        using old True by (simp_all add: n_def)
      have set: "{0..<Suc n} = insert n {0..<n}" by auto
      have img: "((staging \<sigma> G)(n := r)) ` {0..<n} = staging \<sigma> G ` {0..<n}"
        by (rule image_cong) auto
      have "inj_on ((staging \<sigma> G)(n := r)) (insert n {0..<n})"
        using oldG fresh by (auto simp add: inj_on_def)
      moreover have "((staging \<sigma> G)(n := r)) ` insert n {0..<n} =
                     insert r (dispatched_slot d m ` ?old)"
        by (simp only: image_insert fun_upd_same img oldG(2))
      then have "((staging \<sigma> G)(n := r)) ` insert n {0..<n} =
                     dispatched_slot d m ` insert t ?old"
        by (simp only: image_insert r)
      ultimately show ?thesis by (simp only: cnt buf set new simp_thms)
    next
      case False
      then have same: "local_queue_atomics \<sigma>' g = local_queue_atomics \<sigma> g"
        "staging \<sigma>' g = staging \<sigma> g"
        by (auto simp add: f_lqa f_stg n_def)
      have "?new = ?old"
        using False pend fl by (auto simp add: f_ph G_def)
      then show ?thesis using old by (simp add: same)
    qed
  qed
  have 5: "inv_reserved d \<sigma>'"
    unfolding inv_reserved_def
  proof (intro allI conjI impI ballI)
    fix g u assume a: "reserved \<sigma>' g" "u < global_size d" "group_id d u = g"
    then have b: "phase \<sigma> u = Arrived \<or> phase \<sigma> u = Exited"
      using inv_reserved_phase[OF re, of u] by (auto simp add: f)
    then show "phase \<sigma>' u = Arrived \<or> phase \<sigma>' u = Exited"
      by (auto simp add: f_ph)
  next
    fix g k assume "k \<in> copied \<sigma>' g"
    then have k: "reserved \<sigma> g" "k < local_queue_atomics \<sigma> g"
      using inv_reserved_copied[OF re] by (auto simp add: f)
    then show "reserved \<sigma>' g" by (simp add: f)
    from k show "k < local_queue_atomics \<sigma>' g" using lqa_res by simp
  qed
  have blk: "reserved \<sigma> g \<Longrightarrow> block \<sigma>' g = block \<sigma> g" for g
    using lqa_res[of g] by (simp add: block_def f)
  have 6: "inv_regions q0 \<sigma>'"
  proof -
    have "(\<Union>g \<in> {g. reserved \<sigma>' g}. block \<sigma>' g) = (\<Union>g \<in> {g. reserved \<sigma> g}. block \<sigma> g)"
      using blk by (auto simp add: f)
    then show ?thesis using rg blk by (simp add: inv_regions_def f)
  qed
  have stg: "k \<in> copied \<sigma> g \<Longrightarrow> staging \<sigma>' g = staging \<sigma> g" for g k
    using inv_reserved_copied[OF re, of k g] unres by (auto simp add: f_stg)
  have 7: "inv_queue m \<sigma>'"
    using qu stg by (simp add: inv_queue_def f)
  have 8: "inv_groups d \<sigma>'"
    by (rule inv_groups_keep[OF gr f(3)]) (use pend in \<open>auto simp add: f_ph\<close>)
  have 9: "inv_call d m \<sigma>'"
    by (rule inv_call_keep[OF ca]) (use pend in \<open>auto simp add: f_ph split: if_splits\<close>)
  from 1 2 3 4 5 6 7 8 9 show ?thesis by (simp add: round_inv_def)
qed

lemma step_Reserve:
  assumes "step d (Reserve g) \<sigma> = Some \<sigma>'"
  shows "EMISSION (build d)" "g \<in> group_id d ` {0..<global_size d}" "\<not> reserved \<sigma> g"
    "\<And>u. u < global_size d \<Longrightarrow> group_id d u = g \<Longrightarrow>
          phase \<sigma> u = Arrived \<or> phase \<sigma> u = Exited"
    "\<sigma>' = \<sigma>\<lparr>queue_index := (queue_index \<sigma>)(QUEUE_SHADOW_RAY_CAST_DL_RAYS :=
                    queue_index \<sigma> QUEUE_SHADOW_RAY_CAST_DL_RAYS + local_queue_atomics \<sigma> g),
                region := (region \<sigma>)(g := queue_index \<sigma> QUEUE_SHADOW_RAY_CAST_DL_RAYS),
                reserved := (reserved \<sigma>)(g := True)\<rparr>"
    "\<exists>u < global_size d. group_id d u = g \<and> local_id d u = 0 \<and> phase \<sigma> u = Arrived"
  using assms by (auto simp add: enqueue_reserve_def split: if_splits)

lemma reserve_preserves:
  assumes inv: "round_inv d m q0 \<sigma>" and st: "step d (Reserve g) \<sigma> = Some \<sigma>'"
  shows "round_inv d m q0 \<sigma>'"
proof -
  note e = step_Reserve[OF st]
  from inv have fr: "inv_frame m q0 \<sigma>" and sl: "inv_slots d m \<sigma>" and ph: "inv_phase d m \<sigma>"
    and lo: "inv_local d m \<sigma>" and re: "inv_reserved d \<sigma>" and rg: "inv_regions q0 \<sigma>"
    and qu: "inv_queue m \<sigma>" and gr: "inv_groups d \<sigma>" and ca: "inv_call d m \<sigma>"
    by (simp_all add: round_inv_def)
  define c where "c = queue_index \<sigma> QUEUE_SHADOW_RAY_CAST_DL_RAYS"
  define n where "n = local_queue_atomics \<sigma> g"
  have f: "mem \<sigma>' = mem \<sigma>" "phase \<sigma>' = phase \<sigma>" "staging \<sigma>' = staging \<sigma>"
    "copied \<sigma>' = copied \<sigma>" "local_queue_atomics \<sigma>' = local_queue_atomics \<sigma>"
    and f_qi: "queue_index \<sigma>' = (queue_index \<sigma>)(QUEUE_SHADOW_RAY_CAST_DL_RAYS := c + n)"
    and f_reg: "region \<sigma>' = (region \<sigma>)(g := c)"
    and f_res: "reserved \<sigma>' = (reserved \<sigma>)(g := True)"
    using e(5) by (simp_all add: c_def n_def)
  have started_eq: "started \<sigma>' u = started \<sigma> u" for u
    by (simp add: started_def f)
  have touched_eq: "touched d m \<sigma>' i = touched d m \<sigma> i" for i
    by (simp add: touched_def started_eq)
  have nocopy: "copied \<sigma> g = {}"
    using inv_reserved_copied[OF re, of _ g] e(3) by auto
  have 1: "inv_frame m q0 \<sigma>'"
    using fr by (simp add: inv_frame_def f f_qi)
  have 2: "inv_slots d m \<sigma>'"
    using sl by (simp add: inv_slots_def touched_eq f)
  have 3: "inv_phase d m \<sigma>'"
    using ph by (simp add: inv_phase_def started_eq f)
  have 4: "inv_local d m \<sigma>'"
    using lo by (simp add: inv_local_def f)
  have 5: "inv_reserved d \<sigma>'"
    unfolding inv_reserved_def
  proof (intro allI conjI impI ballI)
    fix g' u assume a: "reserved \<sigma>' g'" "u < global_size d" "group_id d u = g'"
    show "phase \<sigma>' u = Arrived \<or> phase \<sigma>' u = Exited"
    proof (cases "g' = g")
      case True then show ?thesis using e(4) a by (simp add: f)
    next
      case False then show ?thesis using inv_reserved_phase[OF re, of u] a by (simp add: f f_res)
    qed
  next
    fix g' k assume "k \<in> copied \<sigma>' g'"
    then show "reserved \<sigma>' g'" "k < local_queue_atomics \<sigma>' g'"
      using inv_reserved_copied[OF re, of k g'] by (auto simp add: f f_res)
  qed
  have blk_new: "block \<sigma>' g = {c..<c + n}"
    by (simp add: block_def f f_reg n_def)
  have blk_old: "g' \<noteq> g \<Longrightarrow> block \<sigma>' g' = block \<sigma> g'" for g'
    by (simp add: block_def f f_reg)
  from rg have u_old: "(\<Union>g \<in> {g. reserved \<sigma> g}. block \<sigma> g) =
                         {q0 QUEUE_SHADOW_RAY_CAST_DL_RAYS ..< c}"
    and le: "q0 QUEUE_SHADOW_RAY_CAST_DL_RAYS \<le> c"
    and disj: "\<And>a b. reserved \<sigma> a \<Longrightarrow> reserved \<sigma> b \<Longrightarrow> a \<noteq> b \<Longrightarrow>
                 block \<sigma> a \<inter> block \<sigma> b = {}"
    by (simp_all add: inv_regions_def c_def)
  have below: "reserved \<sigma> a \<Longrightarrow> block \<sigma> a \<subseteq> {q0 QUEUE_SHADOW_RAY_CAST_DL_RAYS ..< c}" for a
    using u_old by blast
  have 6: "inv_regions q0 \<sigma>'"
    unfolding inv_regions_def
  proof (intro conjI allI impI)
    have "{g'. reserved \<sigma>' g'} = insert g {g'. reserved \<sigma> g'}"
      by (auto simp add: f_res)
    then have "(\<Union>g' \<in> {g'. reserved \<sigma>' g'}. block \<sigma>' g') =
               block \<sigma>' g \<union> (\<Union>g' \<in> {g'. reserved \<sigma> g'}. block \<sigma>' g')"
      by simp
    also have "(\<Union>g' \<in> {g'. reserved \<sigma> g'}. block \<sigma>' g') =
               (\<Union>g' \<in> {g'. reserved \<sigma> g'}. block \<sigma> g')"
    proof (intro SUP_cong refl)
      fix g' assume "g' \<in> {g'. reserved \<sigma> g'}"
      with e(3) have "g' \<noteq> g" by auto
      then show "block \<sigma>' g' = block \<sigma> g'" by (rule blk_old)
    qed
    also have "block \<sigma>' g \<union> (\<Union>g' \<in> {g'. reserved \<sigma> g'}. block \<sigma> g') =
               {q0 QUEUE_SHADOW_RAY_CAST_DL_RAYS ..< c + n}"
      using le by (auto simp add: blk_new u_old)
    finally show "(\<Union>g' \<in> {g'. reserved \<sigma>' g'}. block \<sigma>' g') =
          {q0 QUEUE_SHADOW_RAY_CAST_DL_RAYS ..< queue_index \<sigma>' QUEUE_SHADOW_RAY_CAST_DL_RAYS}"
      by (simp add: f_qi)
    show "q0 QUEUE_SHADOW_RAY_CAST_DL_RAYS \<le> queue_index \<sigma>' QUEUE_SHADOW_RAY_CAST_DL_RAYS"
      using le by (simp add: f_qi)
  next
    fix a b assume ab: "reserved \<sigma>' a \<and> reserved \<sigma>' b \<and> a \<noteq> b"
    show "block \<sigma>' a \<inter> block \<sigma>' b = {}"
    proof (cases "a = g")
      case True
      with ab have "reserved \<sigma> b" "b \<noteq> g" by (auto simp add: f_res)
      then show ?thesis using below[of b] True by (auto simp add: blk_new blk_old)
    next
      case False
      show ?thesis
      proof (cases "b = g")
        case True
        with ab False have "reserved \<sigma> a" by (auto simp add: f_res)
        then show ?thesis using below[of a] True False by (auto simp add: blk_new blk_old)
      next
        case bg: False
        with ab False have "reserved \<sigma> a" "reserved \<sigma> b" by (auto simp add: f_res)
        then show ?thesis using disj[of a b] ab False bg by (simp add: blk_old)
      qed
    qed
  qed
  have reg: "k \<in> copied \<sigma> g' \<Longrightarrow> region \<sigma>' g' = region \<sigma> g'" for g' k
    using nocopy by (auto simp add: f_reg)
  have 7: "inv_queue m \<sigma>'"
    using qu reg by (simp add: inv_queue_def f)
  have 8: "inv_groups d \<sigma>'"
    using gr e(1,6) by (auto simp add: inv_groups_def f_res f)
  have 9: "inv_call d m \<sigma>'"
    by (rule inv_call_keep[OF ca]) (simp_all add: f)
  from 1 2 3 4 5 6 7 8 9 show ?thesis by (simp add: round_inv_def)
qed

lemma step_Copy:
  assumes "step d (Copy g k) \<sigma> = Some \<sigma>'"
  shows "reserved \<sigma> g" "k < local_queue_atomics \<sigma> g" "k \<notin> copied \<sigma> g"
    "\<sigma>' = \<sigma>\<lparr>mem := (mem \<sigma>)\<lparr>queue_data :=
                      enqueue_copy (queue_data (mem \<sigma>)) QUEUE_SHADOW_RAY_CAST_DL_RAYS
                        (region \<sigma> g) (staging \<sigma> g) k\<rparr>,
                copied := (copied \<sigma>)(g := insert k (copied \<sigma> g))\<rparr>"
  using assms by (auto split: if_splits)

lemma copy_preserves:
  assumes inv: "round_inv d m q0 \<sigma>" and st: "step d (Copy g k) \<sigma> = Some \<sigma>'"
  shows "round_inv d m q0 \<sigma>'"
proof -
  note e = step_Copy[OF st]
  from inv have fr: "inv_frame m q0 \<sigma>" and sl: "inv_slots d m \<sigma>" and ph: "inv_phase d m \<sigma>"
    and lo: "inv_local d m \<sigma>" and re: "inv_reserved d \<sigma>" and rg: "inv_regions q0 \<sigma>"
    and qu: "inv_queue m \<sigma>" and gr: "inv_groups d \<sigma>" and ca: "inv_call d m \<sigma>"
    by (simp_all add: round_inv_def)
  have f: "phase \<sigma>' = phase \<sigma>" "staging \<sigma>' = staging \<sigma>" "queue_index \<sigma>' = queue_index \<sigma>"
    "local_queue_atomics \<sigma>' = local_queue_atomics \<sigma>" "region \<sigma>' = region \<sigma>"
    "reserved \<sigma>' = reserved \<sigma>"
    and f_cop: "copied \<sigma>' = (copied \<sigma>)(g := insert k (copied \<sigma> g))"
    and f_mem: "ray_state (mem \<sigma>') = ray_state (mem \<sigma>)" "light_ray (mem \<sigma>') = light_ray (mem \<sigma>)"
      "bsdf_eval (mem \<sigma>') = bsdf_eval (mem \<sigma>)" "is_lamp (mem \<sigma>') = is_lamp (mem \<sigma>)"
      "rng (mem \<sigma>') = rng (mem \<sigma>)" "path_state (mem \<sigma>') = path_state (mem \<sigma>)"
      "sd (mem \<sigma>') = sd (mem \<sigma>)" "sd_DL_shadow (mem \<sigma>') = sd_DL_shadow (mem \<sigma>)"
    and f_q: "queue_data (mem \<sigma>') =
                (queue_data (mem \<sigma>))(QUEUE_SHADOW_RAY_CAST_DL_RAYS :=
                   (queue_data (mem \<sigma>) QUEUE_SHADOW_RAY_CAST_DL_RAYS)
                     (region \<sigma> g + k := staging \<sigma> g k))"
    using e(4) by (simp_all add: enqueue_copy_def)
  have started_eq: "started \<sigma>' u = started \<sigma> u" for u
    by (simp add: started_def f)
  have touched_eq: "touched d m \<sigma>' i = touched d m \<sigma> i" for i
    by (simp add: touched_def started_eq)
  have 1: "inv_frame m q0 \<sigma>'"
    using fr by (simp add: inv_frame_def f f_mem f_q)
  have 2: "inv_slots d m \<sigma>'"
    using sl by (simp add: inv_slots_def touched_eq slot_eq_def f_mem)
  have 3: "inv_phase d m \<sigma>'"
    using ph by (simp add: inv_phase_def started_eq f)
  have 4: "inv_local d m \<sigma>'"
    using lo by (simp add: inv_local_def f)
  have 5: "inv_reserved d \<sigma>'"
    unfolding inv_reserved_def
  proof (intro allI conjI impI ballI)
    fix g' u assume a: "reserved \<sigma>' g'" "u < global_size d" "group_id d u = g'"
    then show "phase \<sigma>' u = Arrived \<or> phase \<sigma>' u = Exited"
      using inv_reserved_phase[OF re, of u] by (simp add: f)
  next
    fix g' k' assume "k' \<in> copied \<sigma>' g'"
    then show "reserved \<sigma>' g'" "k' < local_queue_atomics \<sigma>' g'"
      using inv_reserved_copied[OF re, of k' g'] e(1,2)
      by (auto simp add: f f_cop split: if_splits)
  qed
  have 6: "inv_regions q0 \<sigma>'"
    using rg by (simp add: inv_regions_def block_def f)
  from rg have disj: "\<And>a b. reserved \<sigma> a \<Longrightarrow> reserved \<sigma> b \<Longrightarrow> a \<noteq> b \<Longrightarrow>
                 block \<sigma> a \<inter> block \<sigma> b = {}"
    by (simp add: inv_regions_def)
  have apart: "region \<sigma> g' + k' \<noteq> region \<sigma> g + k" if "k' \<in> copied \<sigma> g'" for g' k'
  proof (cases "g' = g")
    case True
    with that e(3) show ?thesis by auto
  next
    case False
    from inv_reserved_copied[OF re that]
    have r': "reserved \<sigma> g'" and k': "k' < local_queue_atomics \<sigma> g'" by simp_all
    have "region \<sigma> g' + k' \<in> block \<sigma> g'" using k' by (simp add: block_def)
    moreover have "region \<sigma> g + k \<in> block \<sigma> g" using e(2) by (simp add: block_def)
    ultimately show ?thesis using disj[OF r' e(1) False] by auto
  qed
  from qu have q_old: "\<And>g' k'. k' \<in> copied \<sigma> g' \<Longrightarrow>
      queue_data (mem \<sigma>) QUEUE_SHADOW_RAY_CAST_DL_RAYS (region \<sigma> g' + k') = staging \<sigma> g' k'"
    and q_rest: "\<And>p. (\<And>g' k'. k' \<in> copied \<sigma> g' \<Longrightarrow> p \<noteq> region \<sigma> g' + k') \<Longrightarrow>
      queue_data (mem \<sigma>) QUEUE_SHADOW_RAY_CAST_DL_RAYS p =
        queue_data m QUEUE_SHADOW_RAY_CAST_DL_RAYS p"
    by (auto simp add: inv_queue_def)
  have 7: "inv_queue m \<sigma>'"
    unfolding inv_queue_def
  proof (intro conjI allI ballI impI)
    fix g' k' assume a: "k' \<in> copied \<sigma>' g'"
    show "queue_data (mem \<sigma>') QUEUE_SHADOW_RAY_CAST_DL_RAYS (region \<sigma>' g' + k') =
            staging \<sigma>' g' k'"
    proof (cases "g' = g \<and> k' = k")
      case True then show ?thesis by (simp add: f f_q)
    next
      case False
      with a have old: "k' \<in> copied \<sigma> g'" by (auto simp add: f_cop split: if_splits)
      from apart[OF old] q_old[OF old] show ?thesis by (simp add: f f_q)
    qed
  next
    fix p assume a: "\<forall>g'. \<forall>k' \<in> copied \<sigma>' g'. p \<noteq> region \<sigma>' g' + k'"
    have "k \<in> copied \<sigma>' g" by (simp add: f_cop)
    with a have "p \<noteq> region \<sigma> g + k" by (auto simp add: f)
    moreover have "p \<noteq> region \<sigma> g' + k'" if "k' \<in> copied \<sigma> g'" for g' k'
    proof -
      from that have "k' \<in> copied \<sigma>' g'" by (auto simp add: f_cop)
      with a show ?thesis by (auto simp add: f)
    qed
    ultimately show "queue_data (mem \<sigma>') QUEUE_SHADOW_RAY_CAST_DL_RAYS p =
                     queue_data m QUEUE_SHADOW_RAY_CAST_DL_RAYS p"
      using q_rest[of p] by (simp add: f_q)
  qed
  have 8: "inv_groups d \<sigma>'"
    by (rule inv_groups_keep[OF gr f(6)]) (simp add: f)
  have 9: "inv_call d m \<sigma>'"
    by (rule inv_call_keep[OF ca]) (simp_all add: f)
  from 1 2 3 4 5 6 7 8 9 show ?thesis by (simp add: round_inv_def)
qed

lemma step_preserves:
  fixes d :: "('w::len word, 'kg, 'rng, 'ps, 'sd, 'ls, 'ray, 'ev) dispatch"
  assumes "round_inv d m q0 \<sigma>" "step d a \<sigma> = Some \<sigma>'" "distinct_slots d m"
  shows "round_inv d m q0 \<sigma>'"
  using assms
  by (cases a)
    (auto intro: enter_preserves compute_preserves local_stage_preserves reserve_preserves
      copy_preserves)

lemma exec_preserves:
  fixes d :: "('w::len word, 'kg, 'rng, 'ps, 'sd, 'ls, 'ray, 'ev) dispatch"
  assumes "exec d as \<sigma> = Some \<sigma>'" "round_inv d m q0 \<sigma>" "distinct_slots d m"
  shows "round_inv d m q0 \<sigma>'"
  using assms
proof (induction as arbitrary: \<sigma>)
  case Nil
  then show ?case by simp
next
  case (Cons a as)
  then show ?case
    by (auto split: option.splits dest: step_preserves)
qed

lemma no_emission_no_accept: "\<not> EMISSION (build d) \<Longrightarrow> \<not> accepts d m t"
  by (simp add: accepts_def slot_sample_def)

lemma complete_phase:
  "complete d \<sigma> \<Longrightarrow> t < global_size d \<Longrightarrow> phase \<sigma> t = Arrived \<or> phase \<sigma> t = Exited"
  by (simp add: complete_def)

lemma complete_copied:
  "complete d \<sigma> \<Longrightarrow> EMISSION (build d) \<Longrightarrow> t < global_size d \<Longrightarrow>
   {0..<local_queue_atomics \<sigma> (group_id d t)} \<subseteq> copied \<sigma> (group_id d t)"
  by (auto simp add: complete_def)

lemma groups_led_leader:
  "groups_led d \<Longrightarrow> t < global_size d \<Longrightarrow>
   \<exists>u < global_size d. group_id d u = group_id d t \<and> local_id d u = 0"
  by (fastforce simp add: groups_led_def)

lemma distinct_slots_eq:
  "distinct_slots d m \<Longrightarrow> t < global_size d \<Longrightarrow> u < global_size d \<Longrightarrow>
   dispatched_slot d m t = dispatched_slot d m u \<Longrightarrow>
   dispatched_slot d m t \<noteq> QUEUE_EMPTY_SLOT (types d) \<Longrightarrow> t = u"
  by (simp add: distinct_slots_def)

lemma complete_group:
  assumes inv: "round_inv d m q0 \<sigma>" and fin: "complete d \<sigma>" and led: "groups_led d"
    and res: "reserved \<sigma> g"
  shows "inj_on (staging \<sigma> g) {0..<local_queue_atomics \<sigma> g}"
    and "staging \<sigma> g ` {0..<local_queue_atomics \<sigma> g} =
           dispatched_slot d m ` {t. t < global_size d \<and> group_id d t = g \<and> accepts d m t}"
    and "{0..<local_queue_atomics \<sigma> g} \<subseteq> copied \<sigma> g"
proof -
  from inv have ph: "inv_phase d m \<sigma>" and lo: "inv_local d m \<sigma>" and gr: "inv_groups d \<sigma>"
    by (simp_all add: round_inv_def)
  from inv_groups_leader[OF gr res]
  obtain t where t: "t < global_size d" "group_id d t = g" and em: "EMISSION (build d)"
    by auto
  from groups_led_leader[OF led t(1)] t(2)
  obtain u where u: "u < global_size d" "group_id d u = g" "local_id d u = 0"
    by auto
  have finished: "phase \<sigma> v = Arrived \<or> phase \<sigma> v = Exited" if "v < global_size d" for v
    using fin that by (rule complete_phase)
  from finished[OF u(1)] have "phase \<sigma> u \<noteq> Entry" by auto
  with u lo have l: "inj_on (staging \<sigma> g) {0..<local_queue_atomics \<sigma> g}"
    "staging \<sigma> g ` {0..<local_queue_atomics \<sigma> g} =
       dispatched_slot d m `
         {t. t < global_size d \<and> group_id d t = g \<and> phase \<sigma> t = Arrived \<and> accepts d m t}"
    unfolding inv_local_def by blast+
  have "{t. t < global_size d \<and> group_id d t = g \<and> phase \<sigma> t = Arrived \<and> accepts d m t} =
        {t. t < global_size d \<and> group_id d t = g \<and> accepts d m t}"
    using finished inv_phase_exited[OF ph] by auto
  with l show "inj_on (staging \<sigma> g) {0..<local_queue_atomics \<sigma> g}"
    and "staging \<sigma> g ` {0..<local_queue_atomics \<sigma> g} =
           dispatched_slot d m ` {t. t < global_size d \<and> group_id d t = g \<and> accepts d m t}"
    by simp_all
  show "{0..<local_queue_atomics \<sigma> g} \<subseteq> copied \<sigma> g"
    using complete_copied[OF fin em t(1)] t(2) by simp
qed

lemma complete_accept_reserved:
  assumes inv: "round_inv d m q0 \<sigma>" and fin: "complete d \<sigma>" and led: "groups_led d"
    and t: "t < global_size d" and acc: "accepts d m t"
  shows "reserved \<sigma> (group_id d t)"
proof -
  from inv have ph: "inv_phase d m \<sigma>" and lo: "inv_local d m \<sigma>" and re: "inv_reserved d \<sigma>"
    by (simp_all add: round_inv_def)
  define g where "g = group_id d t"
  from acc have em: "EMISSION (build d)" using no_emission_no_accept by blast
  from complete_phase[OF fin t] inv_phase_exited[OF ph, of t] acc
  have arr: "phase \<sigma> t = Arrived" by auto
  from groups_led_leader[OF led t]
  obtain u where u: "u < global_size d" "group_id d u = g" "local_id d u = 0"
    by (auto simp add: g_def)
  from complete_phase[OF fin u(1)] have "phase \<sigma> u \<noteq> Entry" by auto
  with u lo have "staging \<sigma> g ` {0..<local_queue_atomics \<sigma> g} =
       dispatched_slot d m `
         {t. t < global_size d \<and> group_id d t = g \<and> phase \<sigma> t = Arrived \<and> accepts d m t}"
    unfolding inv_local_def by blast
  moreover have "dispatched_slot d m t \<in> dispatched_slot d m `
         {t. t < global_size d \<and> group_id d t = g \<and> phase \<sigma> t = Arrived \<and> accepts d m t}"
    using t acc arr by (auto simp add: g_def)
  ultimately obtain k where k: "k < local_queue_atomics \<sigma> g" by auto
  with complete_copied[OF fin em t] have "k \<in> copied \<sigma> g" by (auto simp add: g_def)
  from inv_reserved_copied[OF re this] show ?thesis by (simp add: g_def)
qed

lemma complete_block_data:
  assumes inv: "round_inv d m q0 \<sigma>" and fin: "complete d \<sigma>" and led: "groups_led d"
    and res: "reserved \<sigma> g" and k: "k < local_queue_atomics \<sigma> g"
  shows "queue_data (mem \<sigma>) QUEUE_SHADOW_RAY_CAST_DL_RAYS (region \<sigma> g + k) = staging \<sigma> g k"
proof -
  from complete_group(3)[OF inv fin led res] k have "k \<in> copied \<sigma> g" by auto
  moreover from inv have "inv_queue m \<sigma>" by (simp add: round_inv_def)
  ultimately show ?thesis by (simp add: inv_queue_def)
qed

lemma in_block: "p \<in> block \<sigma> g \<longleftrightarrow> (\<exists>k < local_queue_atomics \<sigma> g. p = region \<sigma> g + k)"
proof
  assume "p \<in> block \<sigma> g"
  then have "p - region \<sigma> g < local_queue_atomics \<sigma> g" "p = region \<sigma> g + (p - region \<sigma> g)"
    by (auto simp add: block_def)
  then show "\<exists>k < local_queue_atomics \<sigma> g. p = region \<sigma> g + k" by blast
next
  assume "\<exists>k < local_queue_atomics \<sigma> g. p = region \<sigma> g + k"
  then show "p \<in> block \<sigma> g" by (auto simp add: block_def)
qed

lemma complete_region:
  assumes inv: "round_inv d m q0 \<sigma>"
  shows "p \<in> {q0 QUEUE_SHADOW_RAY_CAST_DL_RAYS ..< queue_index \<sigma> QUEUE_SHADOW_RAY_CAST_DL_RAYS}
         \<longleftrightarrow> (\<exists>g. reserved \<sigma> g \<and> p \<in> block \<sigma> g)"
proof -
  from inv have "inv_regions q0 \<sigma>" by (simp add: round_inv_def)
  then have "(\<Union>g \<in> {g. reserved \<sigma> g}. block \<sigma> g) =
       {q0 QUEUE_SHADOW_RAY_CAST_DL_RAYS ..< queue_index \<sigma> QUEUE_SHADOW_RAY_CAST_DL_RAYS}"
    by (simp add: inv_regions_def)
  then show ?thesis by blast
qed

lemma complete_queue:
  assumes inv: "round_inv d m q0 \<sigma>" and fin: "complete d \<sigma>" and led: "groups_led d"
    and dist: "distinct_slots d m"
  shows "queue_data (mem \<sigma>) QUEUE_SHADOW_RAY_CAST_DL_RAYS `
           {q0 QUEUE_SHADOW_RAY_CAST_DL_RAYS ..< queue_index \<sigma> QUEUE_SHADOW_RAY_CAST_DL_RAYS}
         = qualifying d m"  (is "?Q ` ?R = _")
    and "inj_on (queue_data (mem \<sigma>) QUEUE_SHADOW_RAY_CAST_DL_RAYS)
           {q0 QUEUE_SHADOW_RAY_CAST_DL_RAYS ..< queue_index \<sigma> QUEUE_SHADOW_RAY_CAST_DL_RAYS}"
    and "queue_index \<sigma> QUEUE_SHADOW_RAY_CAST_DL_RAYS =
           q0 QUEUE_SHADOW_RAY_CAST_DL_RAYS + card (qualifying d m)"
    and "\<And>p. p \<notin> {q0 QUEUE_SHADOW_RAY_CAST_DL_RAYS ..<
                     queue_index \<sigma> QUEUE_SHADOW_RAY_CAST_DL_RAYS} \<Longrightarrow>
           queue_data (mem \<sigma>) QUEUE_SHADOW_RAY_CAST_DL_RAYS p =
             queue_data m QUEUE_SHADOW_RAY_CAST_DL_RAYS p"
proof -
  from inv have re: "inv_reserved d \<sigma>" and rg: "inv_regions q0 \<sigma>" and qu: "inv_queue m \<sigma>"
    and gr: "inv_groups d \<sigma>"
    by (simp_all add: round_inv_def)
  note grp = complete_group[OF inv fin led]
  note dat = complete_block_data[OF inv fin led]
  note reg = complete_region[OF inv]
  have val: "?Q p \<in> dispatched_slot d m ` {t. t < global_size d \<and> group_id d t = g \<and> accepts d m t}"
    if "reserved \<sigma> g" "p \<in> block \<sigma> g" for p g
  proof -
    from that(2) obtain k where k: "k < local_queue_atomics \<sigma> g" "p = region \<sigma> g + k"
      by (auto simp add: in_block)
    then have "?Q p = staging \<sigma> g k" using dat[OF that(1)] by simp
    also have "\<dots> \<in> staging \<sigma> g ` {0..<local_queue_atomics \<sigma> g}" using k(1) by simp
    finally show ?thesis using grp(2)[OF that(1)] by simp
  qed
  show img: "?Q ` ?R = qualifying d m"
  proof (intro set_eqI iffI)
    fix v assume "v \<in> ?Q ` ?R"
    then obtain p where p: "p \<in> ?R" "v = ?Q p" by blast
    from p(1) obtain g where "reserved \<sigma> g" "p \<in> block \<sigma> g"
      using reg[of p] by blast
    with val[of g p] p(2) show "v \<in> qualifying d m" by (auto simp add: qualifying_def)
  next
    fix v assume "v \<in> qualifying d m"
    then obtain t where t: "t < global_size d" "accepts d m t" "v = dispatched_slot d m t"
      by (auto simp add: qualifying_def)
    define g where "g = group_id d t"
    from complete_accept_reserved[OF inv fin led t(1,2)] have res: "reserved \<sigma> g"
      by (simp add: g_def)
    from t have "v \<in> dispatched_slot d m ` {u. u < global_size d \<and> group_id d u = g \<and> accepts d m u}"
      by (auto simp add: g_def)
    with grp(2)[OF res] have "v \<in> staging \<sigma> g ` {0..<local_queue_atomics \<sigma> g}"
      by simp
    then obtain k where k: "k < local_queue_atomics \<sigma> g" "v = staging \<sigma> g k"
      by auto
    then have "v = ?Q (region \<sigma> g + k)" using dat[OF res] by simp
    moreover have "region \<sigma> g + k \<in> block \<sigma> g" using k(1) by (auto simp add: in_block)
    then have "region \<sigma> g + k \<in> ?R" using res reg[of "region \<sigma> g + k"] by blast
    ultimately show "v \<in> ?Q ` ?R" by blast
  qed
  show inj: "inj_on ?Q ?R"
  proof (rule inj_onI)
    fix p p' assume p: "p \<in> ?R" and p': "p' \<in> ?R" and eq: "?Q p = ?Q p'"
    from p obtain g k where g: "reserved \<sigma> g" "k < local_queue_atomics \<sigma> g" "p = region \<sigma> g + k"
      using reg[of p] in_block[of p \<sigma>] by blast
    from p' obtain g' k' where g': "reserved \<sigma> g'" "k' < local_queue_atomics \<sigma> g'"
      "p' = region \<sigma> g' + k'"
      using reg[of p'] in_block[of p' \<sigma>] by blast
    have "p \<in> block \<sigma> g" "p' \<in> block \<sigma> g'"
      using g g' by (auto simp add: in_block)
    from val[OF g(1) this(1)] obtain t where t: "t < global_size d" "group_id d t = g"
      "accepts d m t" "?Q p = dispatched_slot d m t"
      by auto
    from val[OF g'(1) \<open>p' \<in> block \<sigma> g'\<close>] obtain t' where t': "t' < global_size d"
      "group_id d t' = g'" "accepts d m t'" "?Q p' = dispatched_slot d m t'"
      by auto
    from t(3) have "dispatched_slot d m t \<noteq> QUEUE_EMPTY_SLOT (types d)"
      by (simp add: accepts_def)
    with distinct_slots_eq[OF dist t(1) t'(1)] t(4) t'(4) eq have "t = t'" by simp
    with t(2) t'(2) have gg: "g' = g" by simp
    have "staging \<sigma> g k = staging \<sigma> g k'"
      using eq dat[OF g(1) g(2)] dat[OF g'(1) g'(2)] g(3) g'(3) gg by simp
    with grp(1)[OF g(1)] g(2) g'(2) gg have "k = k'" by (auto simp add: inj_on_def)
    with g(3) g'(3) gg show "p = p'" by simp
  qed
  from rg have le: "q0 QUEUE_SHADOW_RAY_CAST_DL_RAYS \<le> queue_index \<sigma> QUEUE_SHADOW_RAY_CAST_DL_RAYS"
    by (simp add: inv_regions_def)
  have "card (qualifying d m) = card ?R"
    using card_image[OF inj] img by simp
  with le show "queue_index \<sigma> QUEUE_SHADOW_RAY_CAST_DL_RAYS =
           q0 QUEUE_SHADOW_RAY_CAST_DL_RAYS + card (qualifying d m)"
    by simp
  show "?Q p = queue_data m QUEUE_SHADOW_RAY_CAST_DL_RAYS p" if out: "p \<notin> ?R" for p
  proof -
    have "p \<noteq> region \<sigma> g + k" if "k \<in> copied \<sigma> g" for g k
    proof
      assume "p = region \<sigma> g + k"
      moreover from inv_reserved_copied[OF re that]
      have "reserved \<sigma> g" "k < local_queue_atomics \<sigma> g" by simp_all
      ultimately have "\<exists>g. reserved \<sigma> g \<and> p \<in> block \<sigma> g" by (auto simp add: in_block)
      then have "p \<in> ?R" using reg[of p] by blast
      with out show False by simp
    qed
    with qu show ?thesis by (simp add: inv_queue_def)
  qed
qed

lemma complete_slots:
  assumes inv: "round_inv d m q0 \<sigma>" and fin: "complete d \<sigma>" and t: "t < global_size d"
    and ne: "dispatched_slot d m t \<noteq> QUEUE_EMPTY_SLOT (types d)"
  shows "slot_eq (mem \<sigma>)
           (fst (direct_lighting_body (build d) (types d) (engine d) (globals d) m
                   (dispatched_slot d m t))) (dispatched_slot d m t)"
proof -
  from inv have sl: "inv_slots d m \<sigma>" by (simp add: round_inv_def)
  from complete_phase[OF fin t] have "started \<sigma> t" by (auto simp add: started_def)
  with t ne have "touched d m \<sigma> (dispatched_slot d m t)" by (auto simp add: touched_def)
  with inv_slots_at[OF sl, of "dispatched_slot d m t"] show ?thesis by simp
qed

lemma flagged_qualifying: "flagged d m = qualifying d m"
  by (auto simp add: flagged_def qualifying_def accepts_def kernel_by_sample Let_def
      dispatched_slot_def get_ray_index_def slot_sample_def split: if_splits)

lemma step_frame:
  assumes "step d a \<sigma> = Some \<sigma>'" and "q \<noteq> QUEUE_SHADOW_RAY_CAST_DL_RAYS"
  shows "queue_data (mem \<sigma>') q = queue_data (mem \<sigma>) q \<and> queue_index \<sigma>' q = queue_index \<sigma> q"
proof (cases a)
  case (Enter t)
  with assms show ?thesis by (auto split: if_splits)
next
  case (Compute t)
  with assms(1) have "\<sigma>' = \<sigma>\<lparr>mem := fst (kernel_direct_lighting (build d) (types d) (engine d)
       (globals d) (queue_size d) (mem \<sigma>) t),
     phase := (phase \<sigma>)(t := (case snd (kernel_direct_lighting (build d) (types d) (engine d)
       (globals d) (queue_size d) (mem \<sigma>) t) of None \<Rightarrow> Exited | Some (r, q, f) \<Rightarrow> Pending r f))\<rparr>"
    using step_Compute(4) by blast
  then show ?thesis
    by (simp add: kernel_by_sample Let_def body_frame)
next
  case (LocalStage t)
  with assms show ?thesis by (auto split: phase.splits prod.splits)
next
  case (Reserve g)
  with assms show ?thesis using step_Reserve(5)[of d g \<sigma> \<sigma>'] by auto
next
  case (Copy g k)
  with assms show ?thesis using step_Copy(4)[of d g k \<sigma> \<sigma>'] by (auto simp add: enqueue_copy_def)
qed

lemma exec_frame:
  assumes "exec d as \<sigma> = Some \<sigma>'" and "q \<noteq> QUEUE_SHADOW_RAY_CAST_DL_RAYS"
  shows "queue_data (mem \<sigma>') q = queue_data (mem \<sigma>) q \<and> queue_index \<sigma>' q = queue_index \<sigma> q"
  using assms
proof (induction as arbitrary: \<sigma>)
  case Nil
  then show ?case by simp
next
  case (Cons a as)
  from Cons.prems(1) obtain \<sigma>1 where 1: "step d a \<sigma> = Some \<sigma>1" and 2: "exec d as \<sigma>1 = Some \<sigma>'"
    by (auto split: option.splits)
  from step_frame[OF 1 Cons.prems(2)] Cons.IH[OF 2 Cons.prems(2)] show ?case by simp
qed

lemma variant_simps:
  "build (variant gpu d) = (build d)\<lparr>COMPUTE_DEVICE_GPU := gpu\<rparr>"
  "types (variant gpu d) = types d" "engine (variant gpu d) = engine d"
  "globals (variant gpu d) = globals d" "queue_size (variant gpu d) = queue_size d"
  "global_size (variant gpu d) = global_size d" "group_id (variant gpu d) = group_id d"
  "local_id (variant gpu d) = local_id d"
  by (simp_all add: variant_def)




lemma kernel_input_queue:
  "queue_data (fst (kernel_direct_lighting b kt ext kg qs m t)) = queue_data m"
  by (simp add: kernel_by_sample Let_def body_frame)



lemma exec_append:
  "exec d (xs @ ys) \<sigma> = (case exec d xs \<sigma> of None \<Rightarrow> None | Some \<sigma>1 \<Rightarrow> exec d ys \<sigma>1)"
  by (induction xs arbitrary: \<sigma>) (auto split: option.splits)

section \<open>The invariant on every input\<close>

text \<open>
  What follows does not ask that the slots of the input queue be distinct.
\<close>

lemma round_core_launched: "launched \<sigma> \<Longrightarrow> round_core d (mem \<sigma>) \<sigma>"
  by (auto simp add: round_core_def launched_def inv_inputs_def inv_rejected_def
      inv_flagged_def inv_reserved_def inv_groups_def inv_call_def)

lemma inv_reserved_keep:
  assumes "inv_reserved d \<sigma>" and "reserved \<sigma>' = reserved \<sigma>" and "copied \<sigma>' = copied \<sigma>"
    and "\<And>u. phase \<sigma> u = Arrived \<or> phase \<sigma> u = Exited \<Longrightarrow> phase \<sigma>' u = phase \<sigma> u"
    and "\<And>g. reserved \<sigma> g \<Longrightarrow> local_queue_atomics \<sigma> g \<le> local_queue_atomics \<sigma>' g"
  shows "inv_reserved d \<sigma>'"
  unfolding inv_reserved_def
proof (intro allI conjI impI ballI)
  fix g u assume "reserved \<sigma>' g" "u < global_size d" "group_id d u = g"
  then have "phase \<sigma> u = Arrived \<or> phase \<sigma> u = Exited"
    using inv_reserved_phase[OF assms(1), of u] by (simp add: assms(2))
  with assms(4)[OF this] show "phase \<sigma>' u = Arrived \<or> phase \<sigma>' u = Exited" by simp
next
  fix g k assume "k \<in> copied \<sigma>' g"
  then have k: "reserved \<sigma> g" "k < local_queue_atomics \<sigma> g"
    using inv_reserved_copied[OF assms(1), of k g] by (simp_all add: assms(3))
  then show "reserved \<sigma>' g" by (simp add: assms(2))
  from k assms(5)[OF k(1)] show "k < local_queue_atomics \<sigma>' g" by simp
qed

lemma inv_reserved_step:
  assumes re: "inv_reserved d \<sigma>" and st: "step d a \<sigma> = Some \<sigma>'"
  shows "inv_reserved d \<sigma>'"
proof (cases a)
  case (Enter t)
  note e = step_Enter[OF st[unfolded Enter]]
  have "\<not> reserved \<sigma> (group_id d t)"
    using inv_reserved_phase[OF re _ e(1)] e(2) by auto
  then show ?thesis
    using e(2) unfolding e(3) by (intro inv_reserved_keep[OF re]) auto
next
  case (Compute t)
  note e = step_Compute[OF st[unfolded Compute]]
  show ?thesis
    using e(2) unfolding e(4) by (intro inv_reserved_keep[OF re]) auto
next
  case (LocalStage t)
  from st[unfolded LocalStage] obtain r f where pend: "phase \<sigma> t = Pending r f"
    and \<sigma>': "\<sigma>' = \<sigma>\<lparr>local_queue_atomics := (local_queue_atomics \<sigma>)(group_id d t :=
                    fst (enqueue_claim (local_queue_atomics \<sigma> (group_id d t))
                           (staging \<sigma> (group_id d t)) r f)),
                staging := (staging \<sigma>)(group_id d t :=
                    snd (enqueue_claim (local_queue_atomics \<sigma> (group_id d t))
                           (staging \<sigma> (group_id d t)) r f)),
                phase := (phase \<sigma>)(t := Arrived)\<rparr>"
    by (rule step_LocalStage)
  show ?thesis
    using pend unfolding \<sigma>'
    by (intro inv_reserved_keep[OF re]) (auto simp add: enqueue_claim_def)
next
  case (Reserve g)
  note e = step_Reserve[OF st[unfolded Reserve]]
  show ?thesis
    unfolding inv_reserved_def
  proof (intro allI conjI impI ballI)
    fix g' u assume a: "reserved \<sigma>' g'" "u < global_size d" "group_id d u = g'"
    show "phase \<sigma>' u = Arrived \<or> phase \<sigma>' u = Exited"
    proof (cases "g' = g")
      case True then show ?thesis using e(4)[of u] a unfolding e(5) by simp
    next
      case False then show ?thesis
        using inv_reserved_phase[OF re, of u] a unfolding e(5) by simp
    qed
  next
    fix g' k assume "k \<in> copied \<sigma>' g'"
    then show "reserved \<sigma>' g'" "k < local_queue_atomics \<sigma>' g'"
      using inv_reserved_copied[OF re, of k g'] unfolding e(5) by auto
  qed
next
  case (Copy g k)
  note e = step_Copy[OF st[unfolded Copy]]
  show ?thesis
    unfolding inv_reserved_def
  proof (intro allI conjI impI ballI)
    fix g' u assume a: "reserved \<sigma>' g'" "u < global_size d" "group_id d u = g'"
    then show "phase \<sigma>' u = Arrived \<or> phase \<sigma>' u = Exited"
      using inv_reserved_phase[OF re, of u] unfolding e(4) by simp
  next
    fix g' k' assume "k' \<in> copied \<sigma>' g'"
    then show "reserved \<sigma>' g'" "k' < local_queue_atomics \<sigma>' g'"
      using inv_reserved_copied[OF re, of k' g'] e(1,2) unfolding e(4)
      by (auto split: if_splits)
  qed
qed

lemma inv_groups_step:
  assumes gr: "inv_groups d \<sigma>" and st: "step d a \<sigma> = Some \<sigma>'"
  shows "inv_groups d \<sigma>'"
proof (cases a)
  case (Enter t)
  note e = step_Enter[OF st[unfolded Enter]]
  show ?thesis using e(2) unfolding e(3) by (intro inv_groups_keep[OF gr]) auto
next
  case (Compute t)
  note e = step_Compute[OF st[unfolded Compute]]
  show ?thesis using e(2) unfolding e(4) by (intro inv_groups_keep[OF gr]) auto
next
  case (LocalStage t)
  from st[unfolded LocalStage] obtain r f where pend: "phase \<sigma> t = Pending r f"
    and \<sigma>': "\<sigma>' = \<sigma>\<lparr>local_queue_atomics := (local_queue_atomics \<sigma>)(group_id d t :=
                    fst (enqueue_claim (local_queue_atomics \<sigma> (group_id d t))
                           (staging \<sigma> (group_id d t)) r f)),
                staging := (staging \<sigma>)(group_id d t :=
                    snd (enqueue_claim (local_queue_atomics \<sigma> (group_id d t))
                           (staging \<sigma> (group_id d t)) r f)),
                phase := (phase \<sigma>)(t := Arrived)\<rparr>"
    by (rule step_LocalStage)
  show ?thesis unfolding \<sigma>' by (intro inv_groups_keep[OF gr]) auto
next
  case (Reserve g)
  note e = step_Reserve[OF st[unfolded Reserve]]
  show ?thesis using gr e(1,6) unfolding e(5) by (auto simp add: inv_groups_def)
next
  case (Copy g k)
  note e = step_Copy[OF st[unfolded Copy]]
  show ?thesis unfolding e(4) by (intro inv_groups_keep[OF gr]) auto
qed

lemma enters_frame:
  "queue_data m' QUEUE_ACTIVE_AND_REGENERATED_RAYS = queue_data m QUEUE_ACTIVE_AND_REGENERATED_RAYS
   \<Longrightarrow> enters d m' t = enters d m t"
  by (simp add: enters_iff)

lemma inv_call_step:
  assumes ca: "inv_call d m \<sigma>" and st: "step d a \<sigma> = Some \<sigma>'"
    and inp: "queue_data (mem \<sigma>) QUEUE_ACTIVE_AND_REGENERATED_RAYS =
              queue_data m QUEUE_ACTIVE_AND_REGENERATED_RAYS"
  shows "inv_call d m \<sigma>'"
proof (cases a)
  case (Enter t)
  note e = step_Enter[OF st[unfolded Enter]]
  show ?thesis using e(2) unfolding e(3)
    by (intro inv_call_keep[OF ca]) (auto split: if_splits)
next
  case (Compute t)
  note e = step_Compute[OF st[unfolded Compute]]
  define K where "K = kernel_direct_lighting (build d) (types d) (engine d) (globals d)
                          (queue_size d) (mem \<sigma>) t"
  define p' where "p' = (case snd K of None \<Rightarrow> Exited | Some (r, q, f) \<Rightarrow> Pending r f)"
  have f_ph: "phase \<sigma>' = (phase \<sigma>)(t := p')"
    using e(4) by (simp add: K_def p'_def)
  have ent_t: "enters d m t \<longleftrightarrow> snd K \<noteq> None"
    using enters_frame[OF inp, of d t] by (simp add: enters_def K_def)
  have p'_exit: "p' = Exited \<longleftrightarrow> snd K = None"
    by (auto simp add: p'_def split: option.splits)
  show ?thesis
    unfolding inv_call_def
  proof (intro allI conjI impI)
    fix u assume a: "phase \<sigma>' u = Exited"
    show "\<not> enters d m u"
    proof (cases "u = t")
      case True
      with a have "p' = Exited" by (simp add: f_ph)
      then show ?thesis using True by (simp add: ent_t p'_exit)
    next
      case False
      with a have "phase \<sigma> u = Exited" by (simp add: f_ph)
      then show ?thesis by (rule inv_call_exited[OF ca])
    qed
  next
    fix u assume a: "phase \<sigma>' u = Arrived \<or> (\<exists>r f. phase \<sigma>' u = Pending r f)"
    show "enters d m u"
    proof (cases "u = t")
      case True
      with a have "p' \<noteq> Exited" by (auto simp add: f_ph)
      then show ?thesis using True by (simp add: ent_t p'_exit)
    next
      case False
      with a have "phase \<sigma> u = Arrived \<or> (\<exists>r f. phase \<sigma> u = Pending r f)"
        by (simp add: f_ph)
      with ca show ?thesis by (auto simp add: inv_call_def)
    qed
  qed
next
  case (LocalStage t)
  from st[unfolded LocalStage] obtain r f where pend: "phase \<sigma> t = Pending r f"
    and \<sigma>': "\<sigma>' = \<sigma>\<lparr>local_queue_atomics := (local_queue_atomics \<sigma>)(group_id d t :=
                    fst (enqueue_claim (local_queue_atomics \<sigma> (group_id d t))
                           (staging \<sigma> (group_id d t)) r f)),
                staging := (staging \<sigma>)(group_id d t :=
                    snd (enqueue_claim (local_queue_atomics \<sigma> (group_id d t))
                           (staging \<sigma> (group_id d t)) r f)),
                phase := (phase \<sigma>)(t := Arrived)\<rparr>"
    by (rule step_LocalStage)
  show ?thesis using pend unfolding \<sigma>'
    by (intro inv_call_keep[OF ca]) (auto split: if_splits)
next
  case (Reserve g)
  note e = step_Reserve[OF st[unfolded Reserve]]
  show ?thesis unfolding e(5) by (intro inv_call_keep[OF ca]) auto
next
  case (Copy g k)
  note e = step_Copy[OF st[unfolded Copy]]
  show ?thesis unfolding e(4) by (intro inv_call_keep[OF ca]) auto
qed

lemma step_inputs:
  assumes "step d a \<sigma> = Some \<sigma>'"
  shows "rng (mem \<sigma>') = rng (mem \<sigma>)" "path_state (mem \<sigma>') = path_state (mem \<sigma>)"
    "sd (mem \<sigma>') = sd (mem \<sigma>)" "sd_DL_shadow (mem \<sigma>') = sd_DL_shadow (mem \<sigma>)"
proof -
  have "rng (mem \<sigma>') = rng (mem \<sigma>) \<and> path_state (mem \<sigma>') = path_state (mem \<sigma>) \<and>
        sd (mem \<sigma>') = sd (mem \<sigma>) \<and> sd_DL_shadow (mem \<sigma>') = sd_DL_shadow (mem \<sigma>)"
  proof (cases a)
    case (Enter t)
    with assms show ?thesis by (auto split: if_splits)
  next
    case (Compute t)
    with assms show ?thesis
      using step_Compute(4)[of d t \<sigma> \<sigma>'] by (simp add: kernel_by_sample Let_def body_frame)
  next
    case (LocalStage t)
    with assms show ?thesis by (auto split: phase.splits prod.splits)
  next
    case (Reserve g)
    with assms show ?thesis using step_Reserve(5)[of d g \<sigma> \<sigma>'] by auto
  next
    case (Copy g k)
    with assms show ?thesis using step_Copy(4)[of d g k \<sigma> \<sigma>'] by auto
  qed
  then show "rng (mem \<sigma>') = rng (mem \<sigma>)" "path_state (mem \<sigma>') = path_state (mem \<sigma>)"
    "sd (mem \<sigma>') = sd (mem \<sigma>)" "sd_DL_shadow (mem \<sigma>') = sd_DL_shadow (mem \<sigma>)"
    by simp_all
qed

lemma step_ray_state:
  assumes "step d a \<sigma> = Some \<sigma>'" and "\<And>t. a \<noteq> Compute t"
  shows "ray_state (mem \<sigma>') = ray_state (mem \<sigma>)"
proof (cases a)
  case (Enter t)
  with assms(1) show ?thesis by (auto split: if_splits)
next
  case (Compute t)
  with assms(2)[of t] show ?thesis by simp
next
  case (LocalStage t)
  with assms(1) show ?thesis by (auto split: phase.splits prod.splits)
next
  case (Reserve g)
  with assms(1) show ?thesis using step_Reserve(5)[of d g \<sigma> \<sigma>'] by auto
next
  case (Copy g k)
  with assms(1) show ?thesis using step_Copy(4)[of d g k \<sigma> \<sigma>'] by auto
qed

lemma core_step:
  fixes d :: "('w::len word, 'kg, 'rng, 'ps, 'sd, 'ls, 'ray, 'ev) dispatch"
  assumes core: "round_core d m \<sigma>" and st: "step d a \<sigma> = Some \<sigma>'"
  shows "round_core d m \<sigma>'"
proof -
  from core have inp: "inv_inputs m \<sigma>" and rj: "inv_rejected d m \<sigma>"
    and fl: "inv_flagged d m \<sigma>" and re: "inv_reserved d \<sigma>" and gr: "inv_groups d \<sigma>"
    and ca: "inv_call d m \<sigma>"
    by (simp_all add: round_core_def)
  from inp have frm: "rng (mem \<sigma>) = rng m" "path_state (mem \<sigma>) = path_state m"
    "sd (mem \<sigma>) = sd m" "sd_DL_shadow (mem \<sigma>) = sd_DL_shadow m"
    "queue_data (mem \<sigma>) QUEUE_ACTIVE_AND_REGENERATED_RAYS =
       queue_data m QUEUE_ACTIVE_AND_REGENERATED_RAYS"
    by (simp_all add: inv_inputs_def)
  from fl have pending: "\<And>t r. phase \<sigma> t = Pending r True \<Longrightarrow> t < global_size d \<and> accepts d m t"
    and counted: "\<And>g u. u < global_size d \<Longrightarrow> group_id d u = g \<Longrightarrow> local_id d u = 0 \<Longrightarrow>
                    phase \<sigma> u \<noteq> Entry \<Longrightarrow> 0 < local_queue_atomics \<sigma> g \<Longrightarrow>
                    \<exists>t < global_size d. group_id d t = g \<and> accepts d m t"
    unfolding inv_flagged_def by blast+
  have 1: "inv_inputs m \<sigma>'"
    using step_inputs[OF st] step_frame[OF st, of QUEUE_ACTIVE_AND_REGENERATED_RAYS] frm
    by (simp add: inv_inputs_def)
  have 4: "inv_reserved d \<sigma>'" using re st by (rule inv_reserved_step)
  have 5: "inv_groups d \<sigma>'" using gr st by (rule inv_groups_step)
  have 6: "inv_call d m \<sigma>'" using ca st frm(5) by (rule inv_call_step)
  have 2: "inv_rejected d m \<sigma>'" and 3: "inv_flagged d m \<sigma>'"
  proof -
    show "inv_rejected d m \<sigma>'"
    proof (cases "\<exists>t. a = Compute t")
      case False
      then have "ray_state (mem \<sigma>') = ray_state (mem \<sigma>)"
        using step_ray_state[OF st] by blast
      with rj show ?thesis by (simp add: inv_rejected_def)
    next
      case True
      then obtain t where a: "a = Compute t" by blast
      note e = step_Compute[OF st[unfolded a]]
      define r where "r = queue_data (mem \<sigma>) QUEUE_ACTIVE_AND_REGENERATED_RAYS t"
      have m': "mem \<sigma>' = (if r = QUEUE_EMPTY_SLOT (types d) then mem \<sigma>
                          else fst (direct_lighting_body (build d) (types d) (engine d)
                                      (globals d) (mem \<sigma>) r))"
        using e(4) by (simp add: kernel_by_sample Let_def r_def)
      show ?thesis
        unfolding inv_rejected_def
      proof (intro allI impI)
        fix i assume none: "slot_sample (build d) (types d) (engine d) (globals d) m i = None"
        with rj have cur: "ray_state (mem \<sigma>) i = ray_state m i" by (simp add: inv_rejected_def)
        have "slot_sample (build d) (types d) (engine d) (globals d) (mem \<sigma>) i = None"
          by (simp add: sample_local[OF cur frm(1-4)] none)
        then have "ray_state (fst (direct_lighting_body (build d) (types d) (engine d)
                     (globals d) (mem \<sigma>) r)) i = ray_state (mem \<sigma>) i"
          by (cases "i = r")
             (auto simp add: body_by_sample ADD_RAY_FLAG_def split: option.splits)
        with cur show "ray_state (mem \<sigma>') i = ray_state m i" by (simp add: m')
      qed
    qed
    show "inv_flagged d m \<sigma>'"
      unfolding inv_flagged_def
    proof (rule conjI; intro allI impI)
      fix t r assume p: "phase \<sigma>' t = Pending r True"
      show "t < global_size d \<and> accepts d m t"
      proof (cases "phase \<sigma> t = Pending r True")
        case True then show ?thesis by (rule pending)
      next
        case False
        have "a = Compute t"
        proof (cases a)
          case (Enter u)
          with st p False show ?thesis by (auto split: if_splits)
        next
          case (Compute u)
          with st p False show ?thesis by (auto split: if_splits prod.splits)
        next
          case (LocalStage u)
          with st p False show ?thesis by (auto split: phase.splits prod.splits if_splits)
        next
          case (Reserve g)
          with p False show ?thesis using step_Reserve(5)[of d g \<sigma> \<sigma>'] st by auto
        next
          case (Copy g k)
          with p False show ?thesis using step_Copy(4)[of d g k \<sigma> \<sigma>'] st by auto
        qed
        note e = step_Compute[OF st[unfolded this]]
        define i where "i = queue_data (mem \<sigma>) QUEUE_ACTIVE_AND_REGENERATED_RAYS t"
        from p e(4) have call: "snd (kernel_direct_lighting (build d) (types d) (engine d)
              (globals d) (queue_size d) (mem \<sigma>) t) = Some (r, QUEUE_SHADOW_RAY_CAST_DL_RAYS, True)"
          by (auto simp add: kernel_by_sample Let_def split: if_splits option.splits)
        then have ne: "i \<noteq> QUEUE_EMPTY_SLOT (types d)"
          and cur: "slot_sample (build d) (types d) (engine d) (globals d) (mem \<sigma>) i \<noteq> None"
          by (auto simp add: kernel_by_sample Let_def i_def split: if_splits)
        have "slot_sample (build d) (types d) (engine d) (globals d) m i \<noteq> None"
        proof
          assume none: "slot_sample (build d) (types d) (engine d) (globals d) m i = None"
          with rj have same: "ray_state (mem \<sigma>) i = ray_state m i"
            by (simp add: inv_rejected_def)
          from none cur show False by (simp add: sample_local[OF same frm(1-4)])
        qed
        moreover have "dispatched_slot d m t = i"
          by (simp add: dispatched_slot_def get_ray_index_def i_def frm(5))
        ultimately show ?thesis using e(1) ne by (simp add: accepts_def)
      qed
    next
      fix g
      assume "(\<exists>u<global_size d. group_id d u = g \<and> local_id d u = 0 \<and> phase \<sigma>' u \<noteq> Entry) \<and>
              0 < local_queue_atomics \<sigma>' g"
      then obtain u where u: "u < global_size d" "group_id d u = g" "local_id d u = 0"
        "phase \<sigma>' u \<noteq> Entry" and pos: "0 < local_queue_atomics \<sigma>' g"
        by blast
      show "\<exists>t<global_size d. group_id d t = g \<and> accepts d m t"
      proof (cases a)
        case (Enter t)
        note e = step_Enter[OF st[unfolded Enter]]
        show ?thesis
        proof (cases "local_id d t = 0 \<and> group_id d t = g")
          case True
          with pos show ?thesis unfolding e(3) by simp
        next
          case False
          with u(2,3,4) have "phase \<sigma> u \<noteq> Entry" unfolding e(3) by (auto split: if_splits)
          moreover from pos False have "0 < local_queue_atomics \<sigma> g"
            unfolding e(3) by (auto split: if_splits)
          ultimately show ?thesis using counted[OF u(1,2,3)] by blast
        qed
      next
        case (Compute t)
        note e = step_Compute[OF st[unfolded Compute]]
        from u(4) e(2) have "phase \<sigma> u \<noteq> Entry" unfolding e(4) by (auto split: if_splits)
        moreover from pos have "0 < local_queue_atomics \<sigma> g" unfolding e(4) by simp
        ultimately show ?thesis using counted[OF u(1,2,3)] by blast
      next
        case (LocalStage t)
        from st[unfolded LocalStage] obtain r f where pend: "phase \<sigma> t = Pending r f"
          and \<sigma>': "\<sigma>' = \<sigma>\<lparr>local_queue_atomics := (local_queue_atomics \<sigma>)(group_id d t :=
                    fst (enqueue_claim (local_queue_atomics \<sigma> (group_id d t))
                           (staging \<sigma> (group_id d t)) r f)),
                staging := (staging \<sigma>)(group_id d t :=
                    snd (enqueue_claim (local_queue_atomics \<sigma> (group_id d t))
                           (staging \<sigma> (group_id d t)) r f)),
                phase := (phase \<sigma>)(t := Arrived)\<rparr>"
          by (rule step_LocalStage)
        from u(4) pend have old: "phase \<sigma> u \<noteq> Entry" unfolding \<sigma>' by (auto split: if_splits)
        show ?thesis
        proof (cases "f \<and> group_id d t = g")
          case True
          with pend pending[of t r] show ?thesis by auto
        next
          case False
          with pos have "0 < local_queue_atomics \<sigma> g"
            unfolding \<sigma>' by (auto simp add: enqueue_claim_def split: if_splits)
          with old show ?thesis using counted[OF u(1,2,3)] by blast
        qed
      next
        case (Reserve g')
        note e = step_Reserve[OF st[unfolded Reserve]]
        from u(4) pos have "phase \<sigma> u \<noteq> Entry" "0 < local_queue_atomics \<sigma> g"
          unfolding e(5) by simp_all
        then show ?thesis using counted[OF u(1,2,3)] by blast
      next
        case (Copy g' k)
        note e = step_Copy[OF st[unfolded Copy]]
        from u(4) pos have "phase \<sigma> u \<noteq> Entry" "0 < local_queue_atomics \<sigma> g"
          unfolding e(4) by simp_all
        then show ?thesis using counted[OF u(1,2,3)] by blast
      qed
    qed
  qed
  from 1 2 3 4 5 6 show ?thesis by (simp add: round_core_def)
qed

lemma core_exec:
  fixes d :: "('w::len word, 'kg, 'rng, 'ps, 'sd, 'ls, 'ray, 'ev) dispatch"
  assumes "exec d as \<sigma> = Some \<sigma>'" "round_core d m \<sigma>"
  shows "round_core d m \<sigma>'"
  using assms
proof (induction as arbitrary: \<sigma>)
  case Nil
  then show ?case by simp
next
  case (Cons a as)
  then show ?case
    by (auto split: option.splits dest: core_step)
qed

text \<open>A copy is the step of a thread: the group that copies has a thread inside the primitive.\<close>

lemma copy_by_thread:
  fixes d :: "('w::len word, 'kg, 'rng, 'ps, 'sd, 'ls, 'ray, 'ev) dispatch"
  assumes "launched \<sigma>0" and "exec d schedule \<sigma>0 = Some \<sigma>"
    and "step d (Copy g k) \<sigma> = Some \<sigma>'"
  shows "\<exists>u < global_size d. group_id d u = g \<and> local_id d u = 0 \<and> phase \<sigma> u = Arrived"
proof -
  from core_exec[OF assms(2) round_core_launched[OF assms(1)]]
  have "inv_groups d \<sigma>" by (simp add: round_core_def)
  from inv_groups_leader[OF this step_Copy(1)[OF assms(3)]] show ?thesis by simp
qed

section \<open>The two variants simulate each other\<close>

lemma empty_thread_variant: "empty_thread (variant gpu d) m t = empty_thread d m t"
  by (simp add: empty_thread_def dispatched_slot_def variant_simps get_ray_index_def)






lemma reserve_rest:
  fixes d :: "('w::len word, 'kg, 'rng, 'ps, 'sd, 'ls, 'ray, 'ev) dispatch"
  assumes em: "EMISSION (build d)"
    and ph: "\<forall>t < global_size d. phase \<sigma> t = Arrived \<or> phase \<sigma> t = Exited"
  shows "n \<le> global_size d \<Longrightarrow>
         \<exists>rs \<sigma>'. exec d rs \<sigma> = Some \<sigma>' \<and> mem \<sigma>' = mem \<sigma> \<and> phase \<sigma>' = phase \<sigma> \<and>
           local_queue_atomics \<sigma>' = local_queue_atomics \<sigma> \<and> staging \<sigma>' = staging \<sigma> \<and>
           copied \<sigma>' = copied \<sigma> \<and>
           (\<forall>g. reserved \<sigma> g \<longrightarrow> reserved \<sigma>' g) \<and>
           (\<forall>u < n. local_id d u = 0 \<and> phase \<sigma> u = Arrived \<longrightarrow> reserved \<sigma>' (group_id d u)) \<and>
           ((\<forall>t < global_size d. \<not> reserved \<sigma> (group_id d t) \<longrightarrow>
                local_queue_atomics \<sigma> (group_id d t) = 0) \<longrightarrow>
            queue_index \<sigma>' = queue_index \<sigma>)"
proof (induction n)
  case 0
  have "exec d [] \<sigma> = Some \<sigma>" by simp
  then show ?case by (intro exI[of _ "[]"] exI[of _ \<sigma>]) simp
next
  case (Suc n)
  then have n: "n < global_size d" by simp
  from Suc.IH n obtain rs \<sigma>1 where run: "exec d rs \<sigma> = Some \<sigma>1"
    and f: "mem \<sigma>1 = mem \<sigma>" "phase \<sigma>1 = phase \<sigma>"
      "local_queue_atomics \<sigma>1 = local_queue_atomics \<sigma>" "staging \<sigma>1 = staging \<sigma>"
      "copied \<sigma>1 = copied \<sigma>"
    and grow: "\<And>g. reserved \<sigma> g \<Longrightarrow> reserved \<sigma>1 g"
    and done_below: "\<And>u. u < n \<Longrightarrow> local_id d u = 0 \<Longrightarrow> phase \<sigma> u = Arrived \<Longrightarrow>
                       reserved \<sigma>1 (group_id d u)"
    and quiet: "(\<forall>t < global_size d. \<not> reserved \<sigma> (group_id d t) \<longrightarrow>
                   local_queue_atomics \<sigma> (group_id d t) = 0) \<Longrightarrow>
                queue_index \<sigma>1 = queue_index \<sigma>"
    by auto
  define g where "g = group_id d n"
  show ?case
  proof (cases "local_id d n = 0 \<and> phase \<sigma> n = Arrived \<and> \<not> reserved \<sigma>1 g")
    case True
    define \<sigma>2 where
      "\<sigma>2 = \<sigma>1\<lparr>queue_index := (queue_index \<sigma>1)(QUEUE_SHADOW_RAY_CAST_DL_RAYS :=
                    queue_index \<sigma>1 QUEUE_SHADOW_RAY_CAST_DL_RAYS + local_queue_atomics \<sigma>1 g),
                region := (region \<sigma>1)(g := queue_index \<sigma>1 QUEUE_SHADOW_RAY_CAST_DL_RAYS),
                reserved := (reserved \<sigma>1)(g := True)\<rparr>"
    have leader: "\<exists>u\<in>{0..<global_size d}. group_id d u = g \<and> local_id d u = 0 \<and>
                    phase \<sigma>1 u = Arrived"
      using True n by (intro bexI[of _ n]) (simp_all add: g_def f)
    have "step d (Reserve g) \<sigma>1 = Some \<sigma>2"
      using em True leader ph by (simp add: enqueue_reserve_def \<sigma>2_def f)
    with run have run2: "exec d (rs @ [Reserve g]) \<sigma> = Some \<sigma>2"
      by (simp add: exec_append)
    have below: "reserved \<sigma>2 (group_id d u)"
      if "u < Suc n" "local_id d u = 0" "phase \<sigma> u = Arrived" for u
    proof (cases "u = n")
      case True then show ?thesis by (simp add: \<sigma>2_def g_def)
    next
      case False
      with that have "u < n" by simp
      from done_below[OF this that(2,3)] show ?thesis by (simp add: \<sigma>2_def)
    qed
    have same: "queue_index \<sigma>2 = queue_index \<sigma>"
      if z: "\<forall>t < global_size d. \<not> reserved \<sigma> (group_id d t) \<longrightarrow>
               local_queue_atomics \<sigma> (group_id d t) = 0"
    proof -
      from True grow have "\<not> reserved \<sigma> g" by auto
      with z n have "local_queue_atomics \<sigma> g = 0" by (simp add: g_def)
      then show ?thesis using quiet[OF z] by (simp add: \<sigma>2_def f fun_eq_iff)
    qed
    have "mem \<sigma>2 = mem \<sigma>" "phase \<sigma>2 = phase \<sigma>"
      "local_queue_atomics \<sigma>2 = local_queue_atomics \<sigma>" "staging \<sigma>2 = staging \<sigma>"
      "copied \<sigma>2 = copied \<sigma>" "\<And>g'. reserved \<sigma> g' \<Longrightarrow> reserved \<sigma>2 g'"
      using grow by (simp_all add: \<sigma>2_def f)
    with run2 below same show ?thesis by blast
  next
    case False
    have "reserved \<sigma>1 (group_id d u)"
      if "u < Suc n" "local_id d u = 0" "phase \<sigma> u = Arrived" for u
    proof (cases "u = n")
      case True with False that show ?thesis by (simp add: g_def)
    next
      case False
      with that have "u < n" by simp
      from done_below[OF this that(2,3)] show ?thesis .
    qed
    with run f grow quiet show ?thesis by blast
  qed
qed








lemma staged_accepting:
  assumes inv: "round_inv d m q0 \<sigma>"
    and led: "u < global_size d" "group_id d u = g" "local_id d u = 0" "phase \<sigma> u \<noteq> Entry"
    and k: "k < local_queue_atomics \<sigma> g"
  shows "\<exists>t < global_size d. group_id d t = g \<and> accepts d m t"
proof -
  from inv have lo: "inv_local d m \<sigma>" by (simp add: round_inv_def)
  with led have "staging \<sigma> g ` {0..<local_queue_atomics \<sigma> g} =
       dispatched_slot d m `
         {t. t < global_size d \<and> group_id d t = g \<and> phase \<sigma> t = Arrived \<and> accepts d m t}"
    unfolding inv_local_def by blast
  moreover have "staging \<sigma> g k \<in> staging \<sigma> g ` {0..<local_queue_atomics \<sigma> g}"
    using k by simp
  ultimately show ?thesis by auto
qed











section \<open>When a round can be completed\<close>

text \<open>
  A schedule that lets every thread enter, then run the body, then do the local stage, and
  then lets the representatives reserve and the groups copy, is enabled at each step: the
  barriers cannot block it. It completes the round provided no group has lost the
  representative it needs, and a round that lacks one cannot be completed by any schedule.
\<close>

lemma exec_each_from:
  assumes step:
    "\<And>S x \<sigma>. I S \<sigma> \<Longrightarrow> x \<in> set xs \<Longrightarrow> x \<notin> S \<Longrightarrow>
       \<exists>\<sigma>'. step d (f x) \<sigma> = Some \<sigma>' \<and> I (insert x S) \<sigma>'"
  shows "distinct ys \<Longrightarrow> set ys \<subseteq> set xs \<Longrightarrow> S \<inter> set ys = {} \<Longrightarrow> I S \<sigma> \<Longrightarrow>
         \<exists>\<sigma>'. exec d (map f ys) \<sigma> = Some \<sigma>' \<and> I (S \<union> set ys) \<sigma>'"
proof (induction ys arbitrary: S \<sigma>)
  case Nil
  then show ?case by simp
next
  case (Cons y ys)
  from Cons.prems have y: "y \<in> set xs" "y \<notin> S" by auto
  from step[OF Cons.prems(4) y] obtain \<sigma>1 where
    1: "step d (f y) \<sigma> = Some \<sigma>1" and 2: "I (insert y S) \<sigma>1" by blast
  from Cons.prems have "distinct ys" "set ys \<subseteq> set xs" "insert y S \<inter> set ys = {}"
    by auto
  from Cons.IH[OF this 2] obtain \<sigma>' where
    "exec d (map f ys) \<sigma>1 = Some \<sigma>'" "I (insert y S \<union> set ys) \<sigma>'" by blast
  with 1 show ?case by auto
qed

lemma exec_each:
  assumes "distinct xs" and "I {} \<sigma>"
    and "\<And>S x \<sigma>. I S \<sigma> \<Longrightarrow> x \<in> set xs \<Longrightarrow> x \<notin> S \<Longrightarrow>
           \<exists>\<sigma>'. step d (f x) \<sigma> = Some \<sigma>' \<and> I (insert x S) \<sigma>'"
  shows "\<exists>\<sigma>'. exec d (map f xs) \<sigma> = Some \<sigma>' \<and> I (set xs) \<sigma>'"
  using exec_each_from[of I xs d f xs "{}" \<sigma>] assms by auto

lemma all_enter:
  fixes d :: "('w::len word, 'kg, 'rng, 'ps, 'sd, 'ls, 'ray, 'ev) dispatch"
  assumes "launched \<sigma>"
  shows "\<exists>\<sigma>'. exec d (map Enter [0..<global_size d]) \<sigma> = Some \<sigma>' \<and>
          (\<forall>t. phase \<sigma>' t = (if t < global_size d then AtBarrier else Entry)) \<and> idle \<sigma>'"
proof -
  let ?I = "\<lambda>S \<sigma>. (\<forall>t. phase \<sigma> t = (if t \<in> S then AtBarrier else Entry)) \<and> idle \<sigma>"
  have "\<exists>\<sigma>'. exec d (map Enter [0..<global_size d]) \<sigma> = Some \<sigma>' \<and>
          ?I (set [0..<global_size d]) \<sigma>'"
  proof (rule exec_each)
    show "distinct [0..<global_size d]" by simp
    show "?I {} \<sigma>" using assms by (simp add: launched_def)
  next
    fix S x and \<sigma> :: "('w word, 'rng, 'ps, 'sd, 'ray, 'ev) round_state"
    assume "?I S \<sigma>" "x \<in> set [0..<global_size d]" "x \<notin> S"
    then show "\<exists>\<sigma>'. step d (Enter x) \<sigma> = Some \<sigma>' \<and> ?I (insert x S) \<sigma>'"
      by simp
  qed
  then show ?thesis by simp
qed

lemma all_compute:
  fixes d :: "('w::len word, 'kg, 'rng, 'ps, 'sd, 'ls, 'ray, 'ev) dispatch"
  assumes "\<forall>t. phase \<sigma> t = (if t < global_size d then AtBarrier else Entry)" "idle \<sigma>"
  shows "\<exists>\<sigma>'. exec d (map Compute [0..<global_size d]) \<sigma> = Some \<sigma>' \<and>
          (\<forall>t < global_size d. phase \<sigma>' t = Exited \<or> (\<exists>r f. phase \<sigma>' t = Pending r f)) \<and>
          idle \<sigma>'"
proof -
  let ?I = "\<lambda>S \<sigma>. (\<forall>t < global_size d.
                      if t \<in> S then phase \<sigma> t = Exited \<or> (\<exists>r f. phase \<sigma> t = Pending r f)
                      else phase \<sigma> t = AtBarrier) \<and> idle \<sigma>"
  have "\<exists>\<sigma>'. exec d (map Compute [0..<global_size d]) \<sigma> = Some \<sigma>' \<and>
          ?I (set [0..<global_size d]) \<sigma>'"
  proof (rule exec_each)
    show "distinct [0..<global_size d]" by simp
    show "?I {} \<sigma>" using assms by simp
  next
    fix S x and \<sigma> :: "('w word, 'rng, 'ps, 'sd, 'ray, 'ev) round_state"
    assume a: "?I S \<sigma>" "x \<in> set [0..<global_size d]" "x \<notin> S"
    then have g: "\<forall>u\<in>{0..<global_size d}. group_id d u = group_id d x \<longrightarrow> phase \<sigma> u \<noteq> Entry"
      by (auto split: if_splits)
    from a have x: "x < global_size d" "phase \<sigma> x = AtBarrier" by auto
    show "\<exists>\<sigma>'. step d (Compute x) \<sigma> = Some \<sigma>' \<and> ?I (insert x S) \<sigma>'"
      using a(1) x g
      by (auto split: prod.splits option.splits)
  qed
  then show ?thesis by simp
qed

lemma all_local_stage:
  fixes d :: "('w::len word, 'kg, 'rng, 'ps, 'sd, 'ls, 'ray, 'ev) dispatch"
  assumes "\<forall>t < global_size d. phase \<sigma> t = Exited \<or> (\<exists>r f. phase \<sigma> t = Pending r f)" "idle \<sigma>"
  shows "\<exists>\<sigma>'. exec d (map LocalStage (filter (\<lambda>t. phase \<sigma> t \<noteq> Exited) [0..<global_size d])) \<sigma>
               = Some \<sigma>' \<and>
          (\<forall>t < global_size d. phase \<sigma>' t = Arrived \<or> phase \<sigma>' t = Exited) \<and> idle \<sigma>'"
proof -
  let ?xs = "filter (\<lambda>t. phase \<sigma> t \<noteq> Exited) [0..<global_size d]"
  let ?I = "\<lambda>S \<sigma>'. (\<forall>t < global_size d.
                      if t \<in> S then phase \<sigma>' t = Arrived else phase \<sigma>' t = phase \<sigma> t) \<and> idle \<sigma>'"
  have "\<exists>\<sigma>'. exec d (map LocalStage ?xs) \<sigma> = Some \<sigma>' \<and> ?I (set ?xs) \<sigma>'"
  proof (rule exec_each)
    show "distinct ?xs" by simp
    show "?I {} \<sigma>" using assms by simp
  next
    fix S x and \<sigma>' :: "('w word, 'rng, 'ps, 'sd, 'ray, 'ev) round_state"
    assume a: "?I S \<sigma>'" "x \<in> set ?xs" "x \<notin> S"
    then have x: "x < global_size d" "phase \<sigma>' x = phase \<sigma> x" "phase \<sigma> x \<noteq> Exited"
      by auto
    with assms(1) obtain r f where "phase \<sigma>' x = Pending r f" by auto
    then show "\<exists>\<sigma>''. step d (LocalStage x) \<sigma>' = Some \<sigma>'' \<and> ?I (insert x S) \<sigma>''"
      using a(1) by (auto split: prod.splits)
  qed
  then obtain \<sigma>' where 1: "exec d (map LocalStage ?xs) \<sigma> = Some \<sigma>'" and 2: "?I (set ?xs) \<sigma>'"
    by blast
  have "phase \<sigma>' t = Arrived \<or> phase \<sigma>' t = Exited" if "t < global_size d" for t
    using 2 that by (cases "phase \<sigma> t = Exited") auto
  with 1 2 show ?thesis by blast
qed

lemma distinct_pairs:
  "distinct gs \<Longrightarrow> distinct (concat (map (\<lambda>g. map (Pair g) [0..<n g]) gs))"
  by (induction gs) (auto simp add: distinct_map inj_on_def)

lemma set_pairs:
  "set (concat (map (\<lambda>g. map (Pair g) [0..<n g]) gs)) = {(g, k). g \<in> set gs \<and> k < n g}"
  by auto

lemma all_copy:
  fixes d :: "('w::len word, 'kg, 'rng, 'ps, 'sd, 'ls, 'ray, 'ev) dispatch"
  assumes "\<forall>g. copied \<sigma> g = {}"
  shows "\<exists>\<sigma>'. exec d (map (\<lambda>(g, k). Copy g k)
                  (concat (map (\<lambda>g. map (Pair g) [0..<local_queue_atomics \<sigma> g])
                             (filter (reserved \<sigma>)
                                (remdups (map (group_id d) [0..<global_size d])))))) \<sigma> = Some \<sigma>' \<and>
          phase \<sigma>' = phase \<sigma> \<and> reserved \<sigma>' = reserved \<sigma> \<and>
          local_queue_atomics \<sigma>' = local_queue_atomics \<sigma> \<and>
          (\<forall>g k. k \<in> copied \<sigma>' g \<longleftrightarrow>
                   reserved \<sigma> g \<and> g \<in> group_id d ` {0..<global_size d} \<and>
                   k < local_queue_atomics \<sigma> g)"
proof -
  let ?gs = "filter (reserved \<sigma>) (remdups (map (group_id d) [0..<global_size d]))"
  let ?ps = "concat (map (\<lambda>g. map (Pair g) [0..<local_queue_atomics \<sigma> g]) ?gs)"
  let ?I = "\<lambda>S \<sigma>'. phase \<sigma>' = phase \<sigma> \<and> reserved \<sigma>' = reserved \<sigma> \<and>
                    local_queue_atomics \<sigma>' = local_queue_atomics \<sigma> \<and>
                    (\<forall>g k. k \<in> copied \<sigma>' g \<longleftrightarrow> (g, k) \<in> S)"
  have ps: "set ?ps = {(g, k). reserved \<sigma> g \<and> g \<in> group_id d ` {0..<global_size d} \<and>
                               k < local_queue_atomics \<sigma> g}"
    unfolding set_pairs by auto
  have "\<exists>\<sigma>'. exec d (map (\<lambda>(g, k). Copy g k) ?ps) \<sigma> = Some \<sigma>' \<and> ?I (set ?ps) \<sigma>'"
  proof (rule exec_each)
    show "distinct ?ps" by (rule distinct_pairs) simp
    show "?I {} \<sigma>" using assms by simp
  next
    fix S x and \<sigma>' :: "('w word, 'rng, 'ps, 'sd, 'ray, 'ev) round_state"
    assume a: "?I S \<sigma>'" "x \<in> set ?ps" "x \<notin> S"
    obtain g k where x: "x = (g, k)" by (cases x)
    from a(2) have "reserved \<sigma> g" "k < local_queue_atomics \<sigma> g"
      unfolding ps x by auto
    then show "\<exists>\<sigma>''. step d (case x of (g, k) \<Rightarrow> Copy g k) \<sigma>' = Some \<sigma>'' \<and> ?I (insert x S) \<sigma>''"
      using a(1,3) unfolding x by auto
  qed
  then show ?thesis unfolding ps by auto
qed

lemma represented_cpu:
  assumes "groups_led d" and "\<not> COMPUTE_DEVICE_GPU (build d)"
  shows "represented d m"
  unfolding represented_def
proof (intro ballI impI)
  fix t assume t: "t \<in> {0..<global_size d}" and "accepts d m t"
  then have "EMISSION (build d)" using no_emission_no_accept by blast
  moreover from groups_led_leader[OF assms(1), of t] t
  obtain u where "u < global_size d" "group_id d u = group_id d t" "local_id d u = 0"
    by auto
  ultimately show "\<exists>u\<in>{0..<global_size d}.
           group_id d u = group_id d t \<and> local_id d u = 0 \<and> enters d m u"
    using assms(2) by (intro bexI[of _ u]) (simp_all add: enters_iff)
qed

lemma round_can_complete:
  fixes d :: "('w::len word, 'kg, 'rng, 'ps, 'sd, 'ls, 'ray, 'ev) dispatch"
  assumes start: "launched \<sigma>0" and led: "groups_led d"
    and dist: "distinct_slots d (mem \<sigma>0)" and rep: "represented d (mem \<sigma>0)"
  shows "\<exists>schedule \<sigma>. exec d schedule \<sigma>0 = Some \<sigma> \<and> complete d \<sigma>"
proof -
  from all_enter[OF start, of d] obtain \<sigma>1 where
    1: "exec d (map Enter [0..<global_size d]) \<sigma>0 = Some \<sigma>1"
    and p1: "\<forall>t. phase \<sigma>1 t = (if t < global_size d then AtBarrier else Entry)" "idle \<sigma>1"
    by blast
  from all_compute[OF p1] obtain \<sigma>2 where
    2: "exec d (map Compute [0..<global_size d]) \<sigma>1 = Some \<sigma>2"
    and p2: "\<forall>t < global_size d. phase \<sigma>2 t = Exited \<or> (\<exists>r f. phase \<sigma>2 t = Pending r f)"
      "idle \<sigma>2"
    by blast
  from all_local_stage[OF p2] obtain \<sigma>3 where
    3: "exec d (map LocalStage (filter (\<lambda>t. phase \<sigma>2 t \<noteq> Exited) [0..<global_size d])) \<sigma>2
          = Some \<sigma>3"
    and p3: "\<forall>t < global_size d. phase \<sigma>3 t = Arrived \<or> phase \<sigma>3 t = Exited" "idle \<sigma>3"
    by blast
  let ?s3 = "map Enter [0..<global_size d] @ map Compute [0..<global_size d] @
             map LocalStage (filter (\<lambda>t. phase \<sigma>2 t \<noteq> Exited) [0..<global_size d])"
  have e3: "exec d ?s3 \<sigma>0 = Some \<sigma>3"
    using 1 2 3 by (simp add: exec_append)
  show ?thesis
  proof (cases "EMISSION (build d)")
    case False
    from p3(1) False have "complete d \<sigma>3" by (simp add: complete_def)
    with e3 show ?thesis by blast
  next
    case True
    have inv: "round_inv d (mem \<sigma>0) (queue_index \<sigma>0) \<sigma>3"
      using exec_preserves[OF e3 round_inv_launched[OF start] dist] .
    then have ca: "inv_call d (mem \<sigma>0) \<sigma>3" by (simp add: round_inv_def)
    from reserve_rest[OF True p3(1), of "global_size d"]
    obtain rs \<sigma>4 where 4: "exec d rs \<sigma>3 = Some \<sigma>4"
      and f4: "phase \<sigma>4 = phase \<sigma>3" "local_queue_atomics \<sigma>4 = local_queue_atomics \<sigma>3"
        "copied \<sigma>4 = copied \<sigma>3"
      and res4: "\<And>u. u < global_size d \<Longrightarrow> local_id d u = 0 \<Longrightarrow> phase \<sigma>3 u = Arrived \<Longrightarrow>
                   reserved \<sigma>4 (group_id d u)"
      by auto
    have "\<forall>g. copied \<sigma>4 g = {}" using p3(2) by (simp add: f4)
    from all_copy[OF this, of d] obtain \<sigma>5 where
      5: "exec d (map (\<lambda>(g, k). Copy g k)
                  (concat (map (\<lambda>g. map (Pair g) [0..<local_queue_atomics \<sigma>4 g])
                             (filter (reserved \<sigma>4)
                                (remdups (map (group_id d) [0..<global_size d])))))) \<sigma>4 = Some \<sigma>5"
      and f5: "phase \<sigma>5 = phase \<sigma>4" "reserved \<sigma>5 = reserved \<sigma>4"
        "local_queue_atomics \<sigma>5 = local_queue_atomics \<sigma>4"
      and c5: "\<And>g k. k \<in> copied \<sigma>5 g \<longleftrightarrow>
                   reserved \<sigma>4 g \<and> g \<in> group_id d ` {0..<global_size d} \<and>
                   k < local_queue_atomics \<sigma>4 g"
      by blast
    have staged: "reserved \<sigma>4 (group_id d t)"
      if t: "t < global_size d" and k: "k < local_queue_atomics \<sigma>3 (group_id d t)" for t k
    proof -
      from groups_led_leader[OF led t]
      obtain u where u: "u < global_size d" "group_id d u = group_id d t" "local_id d u = 0"
        by auto
      from p3(1) u(1) have "phase \<sigma>3 u \<noteq> Entry" by auto
      from staged_accepting[OF inv u this k]
      obtain t' where t': "t' < global_size d" "group_id d t' = group_id d t"
        "accepts d (mem \<sigma>0) t'"
        by auto
      with rep obtain v where v: "v < global_size d" "group_id d v = group_id d t"
        "local_id d v = 0" "enters d (mem \<sigma>0) v"
        by (auto simp add: represented_def)
      from p3(1) v(1) inv_call_exited[OF ca, of v] v(4) have "phase \<sigma>3 v = Arrived" by auto
      from res4[OF v(1,3) this] v(2) show ?thesis by simp
    qed
    have "complete d \<sigma>5"
      unfolding complete_def
    proof (intro conjI impI ballI)
      fix t assume "t \<in> {0..<global_size d}"
      then show "phase \<sigma>5 t = Arrived \<or> phase \<sigma>5 t = Exited"
        using p3(1) by (simp add: f5 f4)
    next
      fix t assume "t \<in> {0..<global_size d}" "local_id d t = 0 \<and> phase \<sigma>5 t = Arrived"
      then show "reserved \<sigma>5 (group_id d t)"
        using res4[of t] by (simp add: f5 f4)
    next
      fix t k assume "t \<in> {0..<global_size d}"
        "k \<in> {0..<local_queue_atomics \<sigma>5 (group_id d t)}"
      then show "k \<in> copied \<sigma>5 (group_id d t)"
        using staged[of t k] by (simp add: c5 f5 f4)
    qed
    moreover have "exec d (?s3 @ rs @ map (\<lambda>(g, k). Copy g k)
                  (concat (map (\<lambda>g. map (Pair g) [0..<local_queue_atomics \<sigma>4 g])
                             (filter (reserved \<sigma>4)
                                (remdups (map (group_id d) [0..<global_size d])))))) \<sigma>0 = Some \<sigma>5"
      using 1 2 3 4 5 by (simp add: exec_append)
    ultimately show ?thesis by blast
  qed
qed



section \<open>The round as a whole\<close>

text \<open>The concrete dispatch: its runs and the conditions it meets.\<close>

lemma upto4: "{0..<4::nat} = {0, 1, 2, 3}" by auto

lemma example_dispatch_simps:
  "build (example_dispatch gpu) = example_build gpu" "types (example_dispatch gpu) = example_types"
  "engine (example_dispatch gpu) = eager_externals" "globals (example_dispatch gpu) = True"
  "queue_size (example_dispatch gpu) = 4" "global_size (example_dispatch gpu) = 4"
  "group_id (example_dispatch gpu) = (\<lambda>t. t mod 2)"
  "local_id (example_dispatch gpu) = (\<lambda>t. t div 2)"
  by (simp_all add: example_dispatch_def)

lemmas example_run_simps =
  example_launch_def example_dispatch_simps upto4 kernel_by_sample Let_def slot_sample_def
  sample_direct_light_def IS_STATE_def example_simps eager_externals_def complete_def
  enqueue_claim_def enqueue_reserve_def enqueue_copy_def ADD_RAY_FLAG_def body_by_sample

lemma example_run:
  "\<exists>\<sigma>. exec (example_dispatch False) example_schedule example_launch = Some \<sigma> \<and>
        complete (example_dispatch False) \<sigma>"
  by (simp add: example_schedule_def example_run_simps)



lemma example_launched: "launched example_launch"
  by (simp add: launched_def example_launch_def)

lemma example_led: "groups_led (example_dispatch gpu)"
  by (simp add: groups_led_def example_dispatch_simps upto4)

lemma example_distinct: "distinct_slots (example_dispatch gpu) (mem example_launch)"
  by (simp add: distinct_slots_def dispatched_slot_def get_ray_index_def example_dispatch_simps
      upto4 example_launch_def example_simps)







text \<open>
  Claim C4. For any number of work-groups of any sizes and for any schedule that runs the
  round to its end, that is for any timing of the threads' steps and atomic operations, the
  entries appended to \<^verbatim>\<open>QUEUE_SHADOW_RAY_CAST_DL_RAYS\<close> are exactly the slot indices
  whose threads set the enqueue flag: none is missing, none is spurious, none occurs twice;
  the queue's counter grows by their number and the rest of the buffer is as before. With
  the output queue reset on entry, the appended entries are the whole queue. The round can
  be run to its end in every build without \<^verbatim>\<open>__COMPUTE_DEVICE_GPU__\<close>, and in a GPU build
  when no group with an accepting thread has lost its representative to the early return.
\<close>

theorem compaction_exact:
  fixes d :: "('w::len word, 'kg, 'rng, 'ps, 'sd, 'ls, 'ray, 'ev) dispatch"
  assumes start: "launched \<sigma>0" and led: "groups_led d"
    and dist: "distinct_slots d (mem \<sigma>0)"
  shows "(\<not> COMPUTE_DEVICE_GPU (build d) \<or> represented d (mem \<sigma>0) \<longrightarrow>
            (\<exists>schedule \<sigma>. exec d schedule \<sigma>0 = Some \<sigma> \<and> complete d \<sigma>)) \<and>
         (\<forall>schedule \<sigma>.
            exec d schedule \<sigma>0 = Some \<sigma> \<and> complete d \<sigma> \<longrightarrow>
            queue_data (mem \<sigma>) QUEUE_SHADOW_RAY_CAST_DL_RAYS `
              {queue_index \<sigma>0 QUEUE_SHADOW_RAY_CAST_DL_RAYS ..<
               queue_index \<sigma> QUEUE_SHADOW_RAY_CAST_DL_RAYS} = flagged d (mem \<sigma>0) \<and>
            inj_on (queue_data (mem \<sigma>) QUEUE_SHADOW_RAY_CAST_DL_RAYS)
              {queue_index \<sigma>0 QUEUE_SHADOW_RAY_CAST_DL_RAYS ..<
               queue_index \<sigma> QUEUE_SHADOW_RAY_CAST_DL_RAYS} \<and>
            queue_index \<sigma> QUEUE_SHADOW_RAY_CAST_DL_RAYS =
              queue_index \<sigma>0 QUEUE_SHADOW_RAY_CAST_DL_RAYS + card (flagged d (mem \<sigma>0)) \<and>
            (\<forall>p. p < queue_index \<sigma>0 QUEUE_SHADOW_RAY_CAST_DL_RAYS \<or>
                 queue_index \<sigma> QUEUE_SHADOW_RAY_CAST_DL_RAYS \<le> p \<longrightarrow>
                 queue_data (mem \<sigma>) QUEUE_SHADOW_RAY_CAST_DL_RAYS p =
                 queue_data (mem \<sigma>0) QUEUE_SHADOW_RAY_CAST_DL_RAYS p))"
proof (intro conjI allI impI)
  assume "\<not> COMPUTE_DEVICE_GPU (build d) \<or> represented d (mem \<sigma>0)"
  then have "represented d (mem \<sigma>0)" using represented_cpu[OF led] by blast
  then show "\<exists>schedule \<sigma>. exec d schedule \<sigma>0 = Some \<sigma> \<and> complete d \<sigma>"
    by (rule round_can_complete[OF start led dist])
next
  fix schedule \<sigma>
  assume a: "exec d schedule \<sigma>0 = Some \<sigma> \<and> complete d \<sigma>"
  then have run: "exec d schedule \<sigma>0 = Some \<sigma>" and fin: "complete d \<sigma>" by simp_all
  have inv: "round_inv d (mem \<sigma>0) (queue_index \<sigma>0) \<sigma>"
    using exec_preserves[OF run round_inv_launched[OF start] dist] .
  note q = complete_queue[OF inv fin led dist]
  show "queue_data (mem \<sigma>) QUEUE_SHADOW_RAY_CAST_DL_RAYS `
              {queue_index \<sigma>0 QUEUE_SHADOW_RAY_CAST_DL_RAYS ..<
               queue_index \<sigma> QUEUE_SHADOW_RAY_CAST_DL_RAYS} = flagged d (mem \<sigma>0)"
    using q(1) by (simp add: flagged_qualifying)
  show "inj_on (queue_data (mem \<sigma>) QUEUE_SHADOW_RAY_CAST_DL_RAYS)
              {queue_index \<sigma>0 QUEUE_SHADOW_RAY_CAST_DL_RAYS ..<
               queue_index \<sigma> QUEUE_SHADOW_RAY_CAST_DL_RAYS}"
    using q(2) .
  show "queue_index \<sigma> QUEUE_SHADOW_RAY_CAST_DL_RAYS =
              queue_index \<sigma>0 QUEUE_SHADOW_RAY_CAST_DL_RAYS + card (flagged d (mem \<sigma>0))"
    using q(3) by (simp add: flagged_qualifying)
  fix p
  assume "p < queue_index \<sigma>0 QUEUE_SHADOW_RAY_CAST_DL_RAYS \<or>
          queue_index \<sigma> QUEUE_SHADOW_RAY_CAST_DL_RAYS \<le> p"
  then show "queue_data (mem \<sigma>) QUEUE_SHADOW_RAY_CAST_DL_RAYS p =
             queue_data (mem \<sigma>0) QUEUE_SHADOW_RAY_CAST_DL_RAYS p"
    by (intro q(4)) auto
qed

theorem compaction_exact_witness:
  "\<exists>\<sigma>. exec (example_dispatch False) example_schedule example_launch = Some \<sigma> \<and>
        complete (example_dispatch False) \<sigma> \<and>
        queue_data (mem \<sigma>) QUEUE_SHADOW_RAY_CAST_DL_RAYS `
          {0 ..< queue_index \<sigma> QUEUE_SHADOW_RAY_CAST_DL_RAYS} =
          flagged (example_dispatch False) example_state \<and>
        inj_on (queue_data (mem \<sigma>) QUEUE_SHADOW_RAY_CAST_DL_RAYS)
          {0 ..< queue_index \<sigma> QUEUE_SHADOW_RAY_CAST_DL_RAYS} \<and>
        queue_index \<sigma> QUEUE_SHADOW_RAY_CAST_DL_RAYS =
          card (flagged (example_dispatch False) example_state)"
proof -
  from example_run obtain \<sigma> where
    run: "exec (example_dispatch False) example_schedule example_launch = Some \<sigma>"
    and fin: "complete (example_dispatch False) \<sigma>"
    by blast
  from compaction_exact [OF example_launched example_led example_distinct, of False] run fin
  have "queue_data (mem \<sigma>) QUEUE_SHADOW_RAY_CAST_DL_RAYS `
          {queue_index example_launch QUEUE_SHADOW_RAY_CAST_DL_RAYS ..<
           queue_index \<sigma> QUEUE_SHADOW_RAY_CAST_DL_RAYS} =
          flagged (example_dispatch False) (mem example_launch) \<and>
        inj_on (queue_data (mem \<sigma>) QUEUE_SHADOW_RAY_CAST_DL_RAYS)
          {queue_index example_launch QUEUE_SHADOW_RAY_CAST_DL_RAYS ..<
           queue_index \<sigma> QUEUE_SHADOW_RAY_CAST_DL_RAYS} \<and>
        queue_index \<sigma> QUEUE_SHADOW_RAY_CAST_DL_RAYS =
          queue_index example_launch QUEUE_SHADOW_RAY_CAST_DL_RAYS +
          card (flagged (example_dispatch False) (mem example_launch))"
    by blast
  with run fin show ?thesis by (auto simp add: example_launch_def)
qed

text \<open>
  Claim C3. A dispatched slot that is not accepted in this round (not active, or the
  direct-lighting block not compiled in or not enabled, or the BSDF not evaluable, or no
  light sample, or the illumination rejected) has, when the round is over, the state flags
  and the scratch fields \<^verbatim>\<open>light_ray\<close>, \<^verbatim>\<open>bsdf_eval\<close>, \<^verbatim>\<open>is_lamp\<close> it had before, and its
  index is not among the entries appended to the output queue, whatever the schedule. There
  is a schedule that completes the round in every build without \<^verbatim>\<open>__COMPUTE_DEVICE_GPU__\<close>,
  and in a GPU build when no group with an accepting thread has lost its representative to
  the early return.
\<close>

theorem rejected_slot_untouched:
  fixes d :: "('w::len word, 'kg, 'rng, 'ps, 'sd, 'ls, 'ray, 'ev) dispatch"
  assumes start: "launched \<sigma>0" and led: "groups_led d"
    and dist: "distinct_slots d (mem \<sigma>0)"
    and t: "t < global_size d"
    and i: "queue_data (mem \<sigma>0) QUEUE_ACTIVE_AND_REGENERATED_RAYS t = i"
           "i \<noteq> QUEUE_EMPTY_SLOT (types d)"
    and rejected:
      "\<not> IS_STATE (types d) (ray_state (mem \<sigma>0)) i (RAY_ACTIVE (types d)) \<or>
       \<not> EMISSION (build d) \<or> \<not> use_direct_light (types d) (globals d) \<or>
       fetch_flag (types d) (sd (mem \<sigma>0)) AND SD_BSDF_HAS_EVAL (types d) = 0 \<or>
       sample_direct_light (build d) (types d) (engine d) (globals d) (rng (mem \<sigma>0) i)
         (path_state (mem \<sigma>0) i) (sd (mem \<sigma>0)) (sd_DL_shadow (mem \<sigma>0)) = None"
  shows "(\<not> COMPUTE_DEVICE_GPU (build d) \<or> represented d (mem \<sigma>0) \<longrightarrow>
            (\<exists>schedule \<sigma>. exec d schedule \<sigma>0 = Some \<sigma> \<and> complete d \<sigma>)) \<and>
         (\<forall>schedule \<sigma>.
            exec d schedule \<sigma>0 = Some \<sigma> \<and> complete d \<sigma> \<longrightarrow>
            ray_state (mem \<sigma>) i = ray_state (mem \<sigma>0) i \<and>
            light_ray (mem \<sigma>) i = light_ray (mem \<sigma>0) i \<and>
            bsdf_eval (mem \<sigma>) i = bsdf_eval (mem \<sigma>0) i \<and>
            is_lamp (mem \<sigma>) i = is_lamp (mem \<sigma>0) i \<and>
            i \<notin> queue_data (mem \<sigma>) QUEUE_SHADOW_RAY_CAST_DL_RAYS `
                  {queue_index \<sigma>0 QUEUE_SHADOW_RAY_CAST_DL_RAYS ..<
                   queue_index \<sigma> QUEUE_SHADOW_RAY_CAST_DL_RAYS})"
proof (intro conjI allI impI)
  assume "\<not> COMPUTE_DEVICE_GPU (build d) \<or> represented d (mem \<sigma>0)"
  then have "represented d (mem \<sigma>0)" using represented_cpu[OF led] by blast
  then show "\<exists>schedule \<sigma>. exec d schedule \<sigma>0 = Some \<sigma> \<and> complete d \<sigma>"
    by (rule round_can_complete[OF start led dist])
next
  fix schedule \<sigma>
  assume a: "exec d schedule \<sigma>0 = Some \<sigma> \<and> complete d \<sigma>"
  then have run: "exec d schedule \<sigma>0 = Some \<sigma>" and fin: "complete d \<sigma>" by simp_all
  have inv: "round_inv d (mem \<sigma>0) (queue_index \<sigma>0) \<sigma>"
    using exec_preserves[OF run round_inv_launched[OF start] dist] .
  have slot: "dispatched_slot d (mem \<sigma>0) t = i"
    using i(1) by (simp add: dispatched_slot_def get_ray_index_def)
  have none: "slot_sample (build d) (types d) (engine d) (globals d) (mem \<sigma>0) i = None"
    using rejected by (auto simp add: slot_sample_def)
  from complete_slots[OF inv fin t] slot i(2)
  have same: "slot_eq (mem \<sigma>) (mem \<sigma>0) i"
    by (simp add: body_rejected[OF none])
  have out: "i \<notin> qualifying d (mem \<sigma>0)"
  proof
    assume "i \<in> qualifying d (mem \<sigma>0)"
    then obtain u where u: "u < global_size d" "accepts d (mem \<sigma>0) u"
      "dispatched_slot d (mem \<sigma>0) u = i"
      by (auto simp add: qualifying_def)
    from distinct_slots_eq[OF dist t u(1)] slot u(3) i(2) have "u = t" by simp
    with u(2) slot none show False by (simp add: accepts_def)
  qed
  from same show "ray_state (mem \<sigma>) i = ray_state (mem \<sigma>0) i"
    and "light_ray (mem \<sigma>) i = light_ray (mem \<sigma>0) i"
    and "bsdf_eval (mem \<sigma>) i = bsdf_eval (mem \<sigma>0) i"
    and "is_lamp (mem \<sigma>) i = is_lamp (mem \<sigma>0) i"
    by (simp_all add: slot_eq_def)
  from out show "i \<notin> queue_data (mem \<sigma>) QUEUE_SHADOW_RAY_CAST_DL_RAYS `
                  {queue_index \<sigma>0 QUEUE_SHADOW_RAY_CAST_DL_RAYS ..<
                   queue_index \<sigma> QUEUE_SHADOW_RAY_CAST_DL_RAYS}"
    using complete_queue(1)[OF inv fin led dist] by simp
qed

theorem rejected_slot_untouched_witness:
  "\<exists>\<sigma>. exec (example_dispatch False) example_schedule example_launch = Some \<sigma> \<and>
        complete (example_dispatch False) \<sigma> \<and>
        ray_state (mem \<sigma>) 4 = ray_state example_state 4 \<and>
        light_ray (mem \<sigma>) 4 = light_ray example_state 4 \<and>
        bsdf_eval (mem \<sigma>) 4 = bsdf_eval example_state 4 \<and>
        is_lamp (mem \<sigma>) 4 = is_lamp example_state 4 \<and>
        4 \<notin> queue_data (mem \<sigma>) QUEUE_SHADOW_RAY_CAST_DL_RAYS `
              {0 ..< queue_index \<sigma> QUEUE_SHADOW_RAY_CAST_DL_RAYS}"
proof -
  from example_run obtain \<sigma> where
    run: "exec (example_dispatch False) example_schedule example_launch = Some \<sigma>"
    and fin: "complete (example_dispatch False) \<sigma>"
    by blast
  have t: "2 < global_size (example_dispatch False)"
    by (simp add: example_dispatch_simps)
  have slot: "queue_data (mem example_launch) QUEUE_ACTIVE_AND_REGENERATED_RAYS 2 = 4"
    "4 \<noteq> QUEUE_EMPTY_SLOT (types (example_dispatch False))"
    by (simp_all add: example_launch_def example_dispatch_simps example_simps)
  have rejected:
    "\<not> IS_STATE (types (example_dispatch False)) (ray_state (mem example_launch)) 4
         (RAY_ACTIVE (types (example_dispatch False))) \<or>
     \<not> EMISSION (build (example_dispatch False)) \<or>
     \<not> use_direct_light (types (example_dispatch False)) (globals (example_dispatch False)) \<or>
     fetch_flag (types (example_dispatch False)) (sd (mem example_launch)) AND
       SD_BSDF_HAS_EVAL (types (example_dispatch False)) = 0 \<or>
     sample_direct_light (build (example_dispatch False)) (types (example_dispatch False))
       (engine (example_dispatch False)) (globals (example_dispatch False))
       (rng (mem example_launch) 4) (path_state (mem example_launch) 4)
       (sd (mem example_launch)) (sd_DL_shadow (mem example_launch)) = None"
    by (simp add: example_launch_def example_dispatch_simps example_simps IS_STATE_def)
  from rejected_slot_untouched [OF example_launched example_led example_distinct t
      slot rejected] run fin
  have "ray_state (mem \<sigma>) 4 = ray_state (mem example_launch) 4 \<and>
        light_ray (mem \<sigma>) 4 = light_ray (mem example_launch) 4 \<and>
        bsdf_eval (mem \<sigma>) 4 = bsdf_eval (mem example_launch) 4 \<and>
        is_lamp (mem \<sigma>) 4 = is_lamp (mem example_launch) 4 \<and>
        4 \<notin> queue_data (mem \<sigma>) QUEUE_SHADOW_RAY_CAST_DL_RAYS `
              {queue_index example_launch QUEUE_SHADOW_RAY_CAST_DL_RAYS ..<
               queue_index \<sigma> QUEUE_SHADOW_RAY_CAST_DL_RAYS}"
    by blast
  with run fin show ?thesis by (auto simp add: example_launch_def)
qed

text \<open>
  Claim C8. Whatever part of a round has run, \<^verbatim>\<open>QUEUE_ACTIVE_AND_REGENERATED_RAYS\<close> has the
  contents and the count it had before, and so has every queue other than
  \<^verbatim>\<open>QUEUE_SHADOW_RAY_CAST_DL_RAYS\<close>.
\<close>

theorem input_queue_read_only:
  fixes d :: "('w::len word, 'kg, 'rng, 'ps, 'sd, 'ls, 'ray, 'ev) dispatch"
  assumes run: "exec d schedule \<sigma>0 = Some \<sigma>"
  shows "queue_data (mem \<sigma>) QUEUE_ACTIVE_AND_REGENERATED_RAYS =
           queue_data (mem \<sigma>0) QUEUE_ACTIVE_AND_REGENERATED_RAYS \<and>
         queue_index \<sigma> QUEUE_ACTIVE_AND_REGENERATED_RAYS =
           queue_index \<sigma>0 QUEUE_ACTIVE_AND_REGENERATED_RAYS \<and>
         (\<forall>q. q \<noteq> QUEUE_SHADOW_RAY_CAST_DL_RAYS \<longrightarrow>
              queue_data (mem \<sigma>) q = queue_data (mem \<sigma>0) q \<and>
              queue_index \<sigma> q = queue_index \<sigma>0 q)"
  using exec_frame[OF run] by simp

theorem input_queue_read_only_witness:
  "\<exists>\<sigma>. exec (example_dispatch False) example_schedule example_launch = Some \<sigma> \<and>
        queue_data (mem \<sigma>) QUEUE_ACTIVE_AND_REGENERATED_RAYS =
          queue_data example_state QUEUE_ACTIVE_AND_REGENERATED_RAYS \<and>
        queue_index \<sigma> QUEUE_ACTIVE_AND_REGENERATED_RAYS = 0 \<and>
        queue_data (mem \<sigma>) QUEUE_HITBG_BUFF_UPDATE_TOREGEN_RAYS =
          queue_data example_state QUEUE_HITBG_BUFF_UPDATE_TOREGEN_RAYS \<and>
        queue_index \<sigma> QUEUE_HITBG_BUFF_UPDATE_TOREGEN_RAYS = 0 \<and>
        queue_index \<sigma> QUEUE_SHADOW_RAY_CAST_DL_RAYS \<noteq> 0"
proof -
  from example_run obtain \<sigma> where
    run: "exec (example_dispatch False) example_schedule example_launch = Some \<sigma>"
    and fin: "complete (example_dispatch False) \<sigma>"
    by blast
  have "queue_index \<sigma> QUEUE_SHADOW_RAY_CAST_DL_RAYS = 2"
    using run by (simp add: example_schedule_def example_run_simps) auto
  with input_queue_read_only [OF run] run
  show ?thesis by (auto simp add: example_launch_def)
qed




text \<open>
  Claim C7. A thread that fetches the EMPTY sentinel does no domain work: the stage returns
  the split state as it was, without consulting the slot arrays, and neither the queue
  counters nor the group's counter and staging buffer change. In the GPU variant (and without
  \<^verbatim>\<open>__EMISSION__\<close>) the thread has then returned. In the CPU variant it enters the enqueue
  primitive with its flag clear: the group cannot reserve before the thread has done the
  local stage (it takes part in the barrier), and its local stage changes nothing but the
  thread's own place.
\<close>

theorem empty_slot_thread_inert:
  fixes d :: "('w::len word, 'kg, 'rng, 'ps, 'sd, 'ls, 'ray, 'ev) dispatch"
  assumes empty: "queue_data (mem \<sigma>) QUEUE_ACTIVE_AND_REGENERATED_RAYS t =
                    QUEUE_EMPTY_SLOT (types d)"
    and comp: "step d (Compute t) \<sigma> = Some \<sigma>'"
  shows "kernel_direct_lighting (build d) (types d) (engine d) (globals d) (queue_size d)
           (mem \<sigma>) t =
           (mem \<sigma>, if EMISSION (build d) \<and> \<not> COMPUTE_DEVICE_GPU (build d)
                    then Some (QUEUE_EMPTY_SLOT (types d), QUEUE_SHADOW_RAY_CAST_DL_RAYS, False)
                    else None) \<and>
         mem \<sigma>' = mem \<sigma> \<and> queue_index \<sigma>' = queue_index \<sigma> \<and>
         local_queue_atomics \<sigma>' = local_queue_atomics \<sigma> \<and> staging \<sigma>' = staging \<sigma> \<and>
         (COMPUTE_DEVICE_GPU (build d) \<or> \<not> EMISSION (build d) \<longrightarrow> phase \<sigma>' t = Exited) \<and>
         (\<not> COMPUTE_DEVICE_GPU (build d) \<and> EMISSION (build d) \<longrightarrow>
            phase \<sigma>' t = Pending (QUEUE_EMPTY_SLOT (types d)) False \<and>
            step d (Reserve (group_id d t)) \<sigma>' = None \<and>
            step d (LocalStage t) \<sigma>' = Some (\<sigma>'\<lparr>phase := (phase \<sigma>')(t := Arrived)\<rparr>))"
proof -
  note e = step_Compute[OF comp]
  have k: "kernel_direct_lighting (build d) (types d) (engine d) (globals d) (queue_size d)
           (mem \<sigma>) t =
           (mem \<sigma>, if EMISSION (build d) \<and> \<not> COMPUTE_DEVICE_GPU (build d)
                    then Some (QUEUE_EMPTY_SLOT (types d), QUEUE_SHADOW_RAY_CAST_DL_RAYS, False)
                    else None)"
    using empty by (simp add: kernel_by_sample)
  have f: "mem \<sigma>' = mem \<sigma>" "queue_index \<sigma>' = queue_index \<sigma>"
    "local_queue_atomics \<sigma>' = local_queue_atomics \<sigma>" "staging \<sigma>' = staging \<sigma>"
    "reserved \<sigma>' = reserved \<sigma>"
    and p: "phase \<sigma>' = (phase \<sigma>)(t := if EMISSION (build d) \<and> \<not> COMPUTE_DEVICE_GPU (build d)
                 then Pending (QUEUE_EMPTY_SLOT (types d)) False else Exited)"
    unfolding e(4) by (simp_all add: k)
  have "step d (Reserve (group_id d t)) \<sigma>' = None"
    and "step d (LocalStage t) \<sigma>' = Some (\<sigma>'\<lparr>phase := (phase \<sigma>')(t := Arrived)\<rparr>)"
    if "\<not> COMPUTE_DEVICE_GPU (build d)" "EMISSION (build d)"
  proof -
    have pt: "phase \<sigma>' t = Pending (QUEUE_EMPTY_SLOT (types d)) False"
      using that by (simp add: p)
    have "\<exists>u\<in>{0..<global_size d}. group_id d u = group_id d t \<and>
            \<not> (phase \<sigma>' u = Arrived \<or> phase \<sigma>' u = Exited)"
      using e(1) pt by (intro bexI[of _ t]) simp_all
    then show "step d (Reserve (group_id d t)) \<sigma>' = None" by auto
    show "step d (LocalStage t) \<sigma>' = Some (\<sigma>'\<lparr>phase := (phase \<sigma>')(t := Arrived)\<rparr>)"
      by (simp add: pt enqueue_claim_def)
  qed
  with k f p show ?thesis by simp
qed

theorem empty_slot_thread_inert_witness:
  "\<exists>\<sigma> \<sigma>'. exec (example_dispatch False) [Enter 3, Enter 1] example_launch = Some \<sigma> \<and>
           step (example_dispatch False) (Compute 3) \<sigma> = Some \<sigma>' \<and>
           mem \<sigma>' = example_state \<and> queue_index \<sigma>' = queue_index \<sigma> \<and>
           phase \<sigma>' 3 = Pending (- 1) False \<and>
           step (example_dispatch False) (Reserve 1) \<sigma>' = None \<and>
           step (example_dispatch False) (LocalStage 3) \<sigma>' =
             Some (\<sigma>'\<lparr>phase := (phase \<sigma>')(3 := Arrived)\<rparr>)"
proof -
  have "\<exists>\<sigma> \<sigma>'. exec (example_dispatch False) [Enter 3, Enter 1] example_launch = Some \<sigma> \<and>
           step (example_dispatch False) (Compute 3) \<sigma> = Some \<sigma>' \<and> mem \<sigma> = example_state"
    by (simp add: example_run_simps)
  then obtain \<sigma> \<sigma>' where
    run: "exec (example_dispatch False) [Enter 3, Enter 1] example_launch = Some \<sigma>"
    and comp: "step (example_dispatch False) (Compute 3) \<sigma> = Some \<sigma>'"
    and m: "mem \<sigma> = example_state"
    by blast
  have empty: "queue_data (mem \<sigma>) QUEUE_ACTIVE_AND_REGENERATED_RAYS 3 =
               QUEUE_EMPTY_SLOT (types (example_dispatch False))"
    by (simp add: m example_dispatch_simps example_simps)
  have cpu: "\<not> COMPUTE_DEVICE_GPU (build (example_dispatch False)) \<and>
             EMISSION (build (example_dispatch False))"
    by (simp add: example_dispatch_simps example_simps)
  have g: "group_id (example_dispatch False) 3 = 1"
    and e: "QUEUE_EMPTY_SLOT (types (example_dispatch False)) = - 1"
    by (simp_all add: example_dispatch_simps example_simps)
  from empty_slot_thread_inert [OF empty comp] cpu
  have "mem \<sigma>' = mem \<sigma>" "queue_index \<sigma>' = queue_index \<sigma>"
    "phase \<sigma>' 3 = Pending (QUEUE_EMPTY_SLOT (types (example_dispatch False))) False"
    "step (example_dispatch False) (Reserve (group_id (example_dispatch False) 3)) \<sigma>' = None"
    "step (example_dispatch False) (LocalStage 3) \<sigma>' =
       Some (\<sigma>'\<lparr>phase := (phase \<sigma>')(3 := Arrived)\<rparr>)"
    by blast+
  then show ?thesis
    using run comp unfolding g e m by blast
qed

end
